theory Spec2Isabelle
  imports Main "HOL-Library.Word"
begin

unbundle bit_operations_syntax

section \<open>Python primitives used by spf.py\<close>

text \<open>
  Exceptions are values. Only the exception classes that the modelled code paths can
  raise are listed: \<open>ValueError\<close> (an enum lookup that fails, \<open>str.index\<close> that finds
  nothing), \<open>TypeError\<close> (\<open>re.split\<close> applied to \<open>None\<close>), \<open>IndexError\<close> (a list
  index out of range) and netaddr's \<open>AddrFormatError\<close>.
\<close>

datatype error = ValueError | TypeError | IndexError | AddrFormatError

text \<open>\<open>sep.join(xs)\<close>.\<close>

fun str_join :: "string \<Rightarrow> string list \<Rightarrow> string" where
  "str_join sep [] = []"
| "str_join sep [x] = x"
| "str_join sep (x # y # ys) = x @ sep @ str_join sep (y # ys)"

text \<open>
  \<open>re.split(pattern, s)\<close> for a pattern that is an alternation of escaped single
  characters, \<open>"|".join(map(re.escape, delims))\<close>: a match is exactly one character of
  \<open>delims\<close>. The scan keeps the piece collected since the last match (\<open>acc\<close>, newest
  character first) and emits it at every match and at the end of the string.
\<close>

fun re_split_scan :: "string \<Rightarrow> string \<Rightarrow> string \<Rightarrow> string list" where
  "re_split_scan delims acc [] = [rev acc]"
| "re_split_scan delims acc (c # cs) =
     (if c \<in> set delims then rev acc # re_split_scan delims [] cs
      else re_split_scan delims (c # acc) cs)"

definition re_split :: "string \<Rightarrow> string \<Rightarrow> string list" where
  "re_split delims s = re_split_scan delims [] s"

text \<open>\<open>s.split(sep)\<close> for a separator of one character.\<close>

definition str_split :: "char \<Rightarrow> string \<Rightarrow> string list" where
  "str_split sep s = re_split_scan [sep] [] s"

text \<open>\<open>xs[i]\<close>: a negative index counts from the end; out of range raises.\<close>

definition py_index :: "'a list \<Rightarrow> int \<Rightarrow> error + 'a" where
  "py_index xs i =
     (if i < - int (length xs) \<or> int (length xs) \<le> i then Inl IndexError
      else if i < 0 then Inr (xs ! nat (int (length xs) + i))
      else Inr (xs ! nat i))"

text \<open>\<open>xs[i:]\<close>: a negative start counts from the end, and the start is clamped to the list.\<close>

definition py_slice_from :: "int \<Rightarrow> 'a list \<Rightarrow> 'a list" where
  "py_slice_from i xs =
     (let n = int (length xs);
          j = (if i < 0 then max (n + i) 0 else min i n)
      in drop (nat j) xs)"

text \<open>\<open>s.index(c)\<close> for one character: the first position, or \<open>ValueError\<close>.\<close>

fun str_index :: "string \<Rightarrow> char \<Rightarrow> error + nat" where
  "str_index [] c = Inl ValueError"
| "str_index (x # xs) c =
     (if x = c then Inr 0
      else (case str_index xs c of Inl e \<Rightarrow> Inl e | Inr i \<Rightarrow> Inr (Suc i)))"

text \<open>
  \<open>s.replace(old, new)\<close> for a non-empty \<open>old\<close>: occurrences are replaced from the left
  and do not overlap; the replacement text is not scanned again.
\<close>

function str_replace :: "string \<Rightarrow> string \<Rightarrow> string \<Rightarrow> string" where
  "str_replace old new [] = []"
| "str_replace old new (c # cs) =
     (if old \<noteq> [] \<and> take (length old) (c # cs) = old
      then new @ str_replace old new (drop (length old) (c # cs))
      else c # str_replace old new cs)"
  by pat_completeness auto
termination
  by (relation "measure (\<lambda>(old, new, s). length s)") (auto simp: neq_Nil_conv)

text \<open>\<open>"%d" % n\<close> for a Python int.\<close>

definition digit_char :: "int \<Rightarrow> char" where
  "digit_char d = ''0123456789'' ! nat d"

function dec_digits :: "int \<Rightarrow> string" where
  "dec_digits n =
     (if n < 10 then [digit_char n] else dec_digits (n div 10) @ [digit_char (n mod 10)])"
  by pat_completeness auto
termination
  by (relation "measure nat") auto

definition fmt_d :: "int \<Rightarrow> string" where
  "fmt_d n = (if n < 0 then CHR ''-'' # dec_digits (- n) else dec_digits n)"

section \<open>netaddr.IPAddress\<close>

text \<open>
  An address is its version and its integer value; the value of a version 4 address has
  32 bits and the value of a version 6 address has 128.
\<close>

datatype IPAddress = IPv4 "32 word" | IPv6 "128 word"

fun version :: "IPAddress \<Rightarrow> int" where
  "version (IPv4 w) = 4"
| "version (IPv6 w) = 6"

fun width :: "IPAddress \<Rightarrow> nat" where
  "width (IPv4 w) = 32"
| "width (IPv6 w) = 128"

fun ip_value :: "IPAddress \<Rightarrow> int" where
  "ip_value (IPv4 w) = uint w"
| "ip_value (IPv6 w) = uint w"

definition max_int :: "IPAddress \<Rightarrow> int" where
  "max_int a = 2 ^ width a - 1"

text \<open>\<open>str(ip)\<close> of a version 4 address: four decimal octets.\<close>

definition octets :: "32 word \<Rightarrow> int list" where
  "octets w = map (\<lambda>i. (uint w div 256 ^ i) mod 256) [3, 2, 1, 0]"

definition ipv4_str :: "32 word \<Rightarrow> string" where
  "ipv4_str w = str_join ''.'' (map fmt_d (octets w))"

text \<open>
  \<open>ip.format(netaddr.ipv6_verbose)\<close>: eight groups of four lower-case hexadecimal
  digits, separated by colons, nothing compressed.
\<close>

definition hex_char :: "int \<Rightarrow> char" where
  "hex_char d = ''0123456789abcdef'' ! nat d"

definition hextet :: "int \<Rightarrow> string" where
  "hextet g = map (\<lambda>i. hex_char ((g div 16 ^ i) mod 16)) [3, 2, 1, 0]"

definition ipv6_verbose :: "128 word \<Rightarrow> string" where
  "ipv6_verbose w =
     str_join '':'' (map (\<lambda>i. hextet ((uint w div 65536 ^ i) mod 65536)) [7, 6, 5, 4, 3, 2, 1, 0])"

section \<open>Query\<close>

record Query =
  q_sender :: string
  q_domain :: "string option"
  q_ip :: IPAddress

text \<open>
  \<open>Query.__init__(sender, domain=None, ip=IPAddress("127.0.0.1"))\<close>; an omitted
  \<open>ip\<close> argument is \<open>None\<close> here.
\<close>

definition loopback :: IPAddress where
  "loopback = IPv4 2130706433"

definition Query_init :: "string \<Rightarrow> string option \<Rightarrow> IPAddress option \<Rightarrow> Query" where
  "Query_init sender domain ip =
     \<lparr>q_sender = sender, q_domain = domain,
      q_ip = (case ip of None \<Rightarrow> loopback | Some a \<Rightarrow> a)\<rparr>"

text \<open>
  The three properties, in state-passing form: each returns its value together with the
  object as the call leaves it.
\<close>

definition Query_sender :: "Query \<Rightarrow> string \<times> Query" where
  "Query_sender self =
     (let result = q_sender self;
          result = (if CHR ''@'' \<notin> set result then ''postmaster@'' @ result else result)
      in (result, self))"

definition Query_domain :: "Query \<Rightarrow> (error + string) \<times> Query" where
  "Query_domain self =
     (case q_domain self of
        Some d \<Rightarrow>
          if d \<noteq> [] then (Inr d, self)
          else (let (s, self') = Query_sender self in (py_index (str_split CHR ''@'' s) 1, self'))
      | None \<Rightarrow>
          (let (s, self') = Query_sender self in (py_index (str_split CHR ''@'' s) 1, self')))"

definition Query_ip :: "Query \<Rightarrow> IPAddress \<times> Query" where
  "Query_ip self = (q_ip self, self)"

section \<open>Macro\<close>

datatype Macro_Type =
  SENDER | SENDER_LOCAL | SENDER_DOMAIN | DOMAIN | IP | IP_DOMAIN | IP_VERSION | HELO

fun Type_value :: "Macro_Type \<Rightarrow> string" where
  "Type_value SENDER = ''s''"
| "Type_value SENDER_LOCAL = ''l''"
| "Type_value SENDER_DOMAIN = ''o''"
| "Type_value DOMAIN = ''d''"
| "Type_value IP = ''i''"
| "Type_value IP_DOMAIN = ''p''"
| "Type_value IP_VERSION = ''v''"
| "Type_value HELO = ''h''"

definition all_Types :: "Macro_Type list" where
  "all_Types = [SENDER, SENDER_LOCAL, SENDER_DOMAIN, DOMAIN, IP, IP_DOMAIN, IP_VERSION, HELO]"

text \<open>\<open>Macro.Type(token)\<close>: the member with that value, or \<open>ValueError\<close>.\<close>

definition Macro_Type_call :: "string \<Rightarrow> error + Macro_Type" where
  "Macro_Type_call tok =
     (case filter (\<lambda>t. Type_value t = tok) all_Types of
        [] \<Rightarrow> Inl ValueError
      | t # _ \<Rightarrow> Inr t)"

record Macro =
  m_type :: Macro_Type
  m_length :: "int option"
  m_reverse :: bool
  m_delimiter :: string

definition Macro_init :: "string \<Rightarrow> int option \<Rightarrow> bool \<Rightarrow> string \<Rightarrow> error + Macro" where
  "Macro_init tok len rev_flag delim =
     (case Macro_Type_call tok of
        Inl e \<Rightarrow> Inl e
      | Inr t \<Rightarrow>
          Inr \<lparr>m_type = t, m_length = len, m_reverse = rev_flag,
               m_delimiter = (if delim \<noteq> [] then delim else ''.'')\<rparr>)"

text \<open>Python truth of \<open>self.length\<close>: \<open>None\<close> and \<open>0\<close> are false.\<close>

definition length_truthy :: "int option \<Rightarrow> bool" where
  "length_truthy len = (case len of None \<Rightarrow> False | Some n \<Rightarrow> n \<noteq> 0)"

definition Macro_str :: "Macro \<Rightarrow> string" where
  "Macro_str self =
     (let result = Type_value (m_type self);
          result = (if length_truthy (m_length self) then result @ fmt_d (the (m_length self)) else result);
          result = (if m_reverse self then result @ ''r'' else result);
          result = (if m_delimiter self \<noteq> ''.'' then result @ m_delimiter self else result)
      in ''%{'' @ result @ ''}'')"

text \<open>
  The \<open>if\<close>/\<open>elif\<close> chain of \<open>Macro.expand\<close> that picks the raw value; \<open>None\<close> is the
  initial \<open>result = None\<close> that no branch has overwritten. The second \<open>DOMAIN\<close> branch of
  the source is kept in its place.
\<close>

definition raw_value :: "Macro_Type \<Rightarrow> Query \<Rightarrow> error + string option" where
  "raw_value t query =
     (if t = SENDER then Inr (Some (fst (Query_sender query)))
      else if t = SENDER_LOCAL then
        (case py_index (str_split CHR ''@'' (fst (Query_sender query))) 0 of
           Inl e \<Rightarrow> Inl e | Inr r \<Rightarrow> Inr (Some r))
      else if t = SENDER_DOMAIN then
        (case py_index (str_split CHR ''@'' (fst (Query_sender query))) 1 of
           Inl e \<Rightarrow> Inl e | Inr r \<Rightarrow> Inr (Some r))
      else if t = DOMAIN then
        (case fst (Query_domain query) of Inl e \<Rightarrow> Inl e | Inr r \<Rightarrow> Inr (Some r))
      else if t = DOMAIN then
        (case fst (Query_domain query) of Inl e \<Rightarrow> Inl e | Inr r \<Rightarrow> Inr (Some r))
      else if t = IP then
        (case fst (Query_ip query) of
           IPv6 w \<Rightarrow>
             Inr (Some (str_join ''.'' (map (\<lambda>c. [c]) (filter (\<lambda>c. c \<noteq> CHR '':'') (ipv6_verbose w)))))
         | IPv4 w \<Rightarrow> Inr (Some (ipv4_str w)))
      else if t = IP_VERSION then
        (case fst (Query_ip query) of
           IPv6 w \<Rightarrow> Inr (Some ''ip6'')
         | IPv4 w \<Rightarrow> Inr (Some ''in-addr''))
      else Inr None)"

definition Macro_expand :: "Macro \<Rightarrow> Query \<Rightarrow> error + string" where
  "Macro_expand self query =
     (case raw_value (m_type self) query of
        Inl e \<Rightarrow> Inl e
      | Inr None \<Rightarrow> Inl TypeError
      | Inr (Some raw) \<Rightarrow>
          (let result = re_split (m_delimiter self) raw;
               result = (if m_reverse self then rev result else result);
               result = (if length_truthy (m_length self)
                         then py_slice_from (- the (m_length self)) result else result)
           in Inr (str_join ''.'' result)))"

section \<open>Domain\<close>

text \<open>
  The data of a \<open>Domain\<close> is a list whose items are either \<open>str\<close> objects or
  \<open>Macro\<close> objects (the \<open>isinstance(i, str)\<close> test of the two loops).
\<close>

datatype fragment = Lit string | Mac Macro

type_synonym Domain = "fragment list"

definition escape_literal :: "string \<Rightarrow> string" where
  "escape_literal i =
     str_replace '' '' ''%_'' (str_replace ''%%20'' ''%-'' (str_replace ''%'' ''%%'' i))"

fun Domain_str_loop :: "fragment list \<Rightarrow> string \<Rightarrow> string" where
  "Domain_str_loop [] result = result"
| "Domain_str_loop (Lit i # data) result = Domain_str_loop data (result @ escape_literal i)"
| "Domain_str_loop (Mac i # data) result = Domain_str_loop data (result @ Macro_str i)"

definition Domain_str :: "Domain \<Rightarrow> string" where
  "Domain_str self = Domain_str_loop self []"

text \<open>The \<open>for\<close> loop of \<open>Domain.expand\<close>: the first macro that raises ends it.\<close>

fun expand_loop :: "fragment list \<Rightarrow> Query \<Rightarrow> string \<Rightarrow> error + string" where
  "expand_loop [] query result = Inr result"
| "expand_loop (Lit i # data) query result = expand_loop data query (result @ i)"
| "expand_loop (Mac i # data) query result =
     (case Macro_expand i query of
        Inl e \<Rightarrow> Inl e
      | Inr x \<Rightarrow> expand_loop data query (result @ x))"

text \<open>
  The \<open>while len(result) > 253\<close> loop: \<open>result.index(".")\<close> raises \<open>ValueError\<close> when
  no dot is left.
\<close>

function strip_loop :: "string \<Rightarrow> error + string" where
  "strip_loop result =
     (if length result > 253
      then (case str_index result CHR ''.'' of
              Inl e \<Rightarrow> Inl e
            | Inr i \<Rightarrow> strip_loop (drop (i + 1) result))
      else Inr result)"
  by pat_completeness auto
termination
  by (relation "measure length") auto

definition Domain_expand :: "Domain \<Rightarrow> Query \<Rightarrow> error + string" where
  "Domain_expand self query =
     (case expand_loop self query [] of
        Inl e \<Rightarrow> Inl e
      | Inr result \<Rightarrow> strip_loop result)"

section \<open>netaddr.IPNetwork\<close>

text \<open>
  A parsed network is an address and a prefix length; a prefix length beyond the width of
  the address is refused with \<open>AddrFormatError\<close>. The members used by spf.py are
  \<open>cidr\<close>, \<open>ip\<close>, \<open>prefixlen\<close>, \<open>version\<close> and, on the address,
  \<open>netmask_bits\<close>.
\<close>

record network =
  net_ip :: IPAddress
  net_prefixlen :: nat

definition netaddr_IPNetwork :: "IPAddress \<Rightarrow> nat \<Rightarrow> error + network" where
  "netaddr_IPNetwork a n =
     (if n \<le> width a then Inr \<lparr>net_ip = a, net_prefixlen = n\<rparr> else Inl AddrFormatError)"

fun with_value :: "IPAddress \<Rightarrow> int \<Rightarrow> IPAddress" where
  "with_value (IPv4 w) v = IPv4 (word_of_int v)"
| "with_value (IPv6 w) v = IPv6 (word_of_int v)"

definition hostmask_int :: "network \<Rightarrow> int" where
  "hostmask_int n = 2 ^ (width (net_ip n) - net_prefixlen n) - 1"

text \<open>\<open>network.cidr\<close>: the address with its host bits cleared, the same prefix length.\<close>

definition cidr :: "network \<Rightarrow> network" where
  "cidr n =
     n\<lparr>net_ip := with_value (net_ip n)
                   (ip_value (net_ip n) AND (max_int (net_ip n) XOR hostmask_int n))\<rparr>"

text \<open>
  \<open>IPAddress.is_netmask\<close> and \<open>IPAddress.netmask_bits\<close>: "If this IP is a valid
  netmask, the number of non-zero bits are returned, otherwise it returns the width in
  bits for the IP address version."
\<close>

definition is_netmask :: "IPAddress \<Rightarrow> bool" where
  "is_netmask a =
     (let int_val = (ip_value a XOR max_int a) + 1
      in int_val AND (int_val - 1) = 0)"

function count_low_zeros :: "int \<Rightarrow> int \<Rightarrow> int" where
  "count_low_zeros i_val numbits =
     (if i_val > 0
      then (if i_val AND 1 = 1 then numbits
            else count_low_zeros (drop_bit 1 i_val) (numbits + 1))
      else numbits)"
  by pat_completeness auto
termination
  by (relation "measure (\<lambda>(i_val, numbits). nat i_val)") (auto simp: drop_bit_eq_div)

text \<open>
  After the loop netaddr computes \<open>mask_length = width - numbits\<close> and raises
  \<open>ValueError\<close> unless \<open>0 \<le> mask_length \<le> width\<close>. Lemma \<open>mask_length_in_range\<close> below
  shows that the test never fails for an address value, so \<open>netmask_bits\<close> is
  modelled as returning the integer.
\<close>

definition netmask_bits :: "IPAddress \<Rightarrow> int" where
  "netmask_bits a =
     (if \<not> is_netmask a then int (width a)
      else if ip_value a = 0 then 0
      else
        (let numbits = count_low_zeros (ip_value a) 0;
             mask_length = int (width a) - numbits
         in mask_length))"

section \<open>Mechanisms, directives, modifiers and the record\<close>

datatype Qualifier = PASS | FAIL | NEUTRAL | SOFT_FAIL

fun Qualifier_value :: "Qualifier \<Rightarrow> string" where
  "Qualifier_value PASS = ''+''"
| "Qualifier_value FAIL = ''-''"
| "Qualifier_value NEUTRAL = ''?''"
| "Qualifier_value SOFT_FAIL = ''~''"

text \<open>
  \<open>__Cidr\<close>: the base of \<open>A\<close> and \<open>MX\<close>. Its domain is \<open>None\<close> or a \<open>Domain\<close>
  object; a \<open>Domain\<close> defines neither \<open>__bool__\<close> nor \<open>__len__\<close>, so the test
  \<open>if self.domain\<close> is true for every \<open>Domain\<close>. An omitted prefix length argument is
  \<open>None\<close> in \<open>Cidr_init\<close>.
\<close>

record Cidr =
  c_domain :: "Domain option"
  ipv4_prefix_length :: int
  ipv6_prefix_length :: int

definition Cidr_init :: "Domain option \<Rightarrow> int option \<Rightarrow> int option \<Rightarrow> Cidr" where
  "Cidr_init domain p4 p6 =
     \<lparr>c_domain = domain,
      ipv4_prefix_length = (case p4 of None \<Rightarrow> 32 | Some n \<Rightarrow> n),
      ipv6_prefix_length = (case p6 of None \<Rightarrow> 128 | Some n \<Rightarrow> n)\<rparr>"

definition Cidr_str :: "Cidr \<Rightarrow> string" where
  "Cidr_str self =
     (let result = [];
          result = (case c_domain self of
                      Some d \<Rightarrow> result @ '':'' @ Domain_str d
                    | None \<Rightarrow> result);
          result = (if ipv4_prefix_length self \<noteq> 32
                    then result @ ''/'' @ fmt_d (ipv4_prefix_length self) else result);
          result = (if ipv6_prefix_length self \<noteq> 128
                    then result @ ''//'' @ fmt_d (ipv6_prefix_length self) else result)
      in result)"

text \<open>
  The \<open>IPNetwork\<close> mechanism keeps the parsed network; its \<open>network\<close> property is the
  \<open>cidr\<close> of it, and \<open>address\<close>, \<open>prefix_length\<close> and \<open>version\<close> read that.
\<close>

definition IPNetwork_init :: "IPAddress \<Rightarrow> nat \<Rightarrow> error + network" where
  "IPNetwork_init a n = netaddr_IPNetwork a n"

definition IPNetwork_network :: "network \<Rightarrow> network" where
  "IPNetwork_network self = cidr self"

definition IPNetwork_version :: "network \<Rightarrow> int" where
  "IPNetwork_version self = version (net_ip (IPNetwork_network self))"

definition IPNetwork_address :: "network \<Rightarrow> IPAddress" where
  "IPNetwork_address self = net_ip (IPNetwork_network self)"

definition IPNetwork_prefix_length :: "network \<Rightarrow> int" where
  "IPNetwork_prefix_length self = int (net_prefixlen (IPNetwork_network self))"

text \<open>
  \<open>str(address)\<close>: the dotted quad of a version 4 address. The compact text of a
  version 6 address is what the platform's \<open>inet_ntop\<close> prints; it is the parameter
  \<open>ntop6\<close> of every rendering function below.
\<close>

fun IPAddress_str :: "(128 word \<Rightarrow> string) \<Rightarrow> IPAddress \<Rightarrow> string" where
  "IPAddress_str ntop6 (IPv4 w) = ipv4_str w"
| "IPAddress_str ntop6 (IPv6 w) = ntop6 w"

definition IPNetwork_str :: "(128 word \<Rightarrow> string) \<Rightarrow> network \<Rightarrow> string" where
  "IPNetwork_str ntop6 self =
     (let suffix = (if IPNetwork_prefix_length self \<noteq> netmask_bits (IPNetwork_address self)
                    then ''/'' @ fmt_d (IPNetwork_prefix_length self) else [])
      in ''ip'' @ fmt_d (IPNetwork_version self) @ '':''
         @ IPAddress_str ntop6 (IPNetwork_address self) @ suffix)"

datatype Mechanism =
  All | Include Domain | Exists Domain | A Cidr | MX Cidr | IPNetwork network

fun Mechanism_str :: "(128 word \<Rightarrow> string) \<Rightarrow> Mechanism \<Rightarrow> string" where
  "Mechanism_str ntop6 All = ''all''"
| "Mechanism_str ntop6 (Include d) = ''include'' @ '':'' @ Domain_str d"
| "Mechanism_str ntop6 (Exists d) = ''exists'' @ '':'' @ Domain_str d"
| "Mechanism_str ntop6 (A c) = ''a'' @ Cidr_str c"
| "Mechanism_str ntop6 (MX c) = ''mx'' @ Cidr_str c"
| "Mechanism_str ntop6 (IPNetwork n) = IPNetwork_str ntop6 n"

datatype Directive = Directive Mechanism Qualifier

fun Directive_str :: "(128 word \<Rightarrow> string) \<Rightarrow> Directive \<Rightarrow> string" where
  "Directive_str ntop6 (Directive mechanism qualifier) =
     (let result = (if qualifier \<noteq> PASS then Qualifier_value qualifier else [])
      in result @ Mechanism_str ntop6 mechanism)"

datatype Modifier = Redirect Domain | Exp Domain

fun Modifier_str :: "Modifier \<Rightarrow> string" where
  "Modifier_str (Redirect d) = ''redirect'' @ ''='' @ Domain_str d"
| "Modifier_str (Exp d) = ''exp'' @ ''='' @ Domain_str d"

text \<open>The items of the list an \<open>SPF\<close> object holds.\<close>

datatype Term = TDirective Directive | TModifier Modifier

fun Term_str :: "(128 word \<Rightarrow> string) \<Rightarrow> Term \<Rightarrow> string" where
  "Term_str ntop6 (TDirective d) = Directive_str ntop6 d"
| "Term_str ntop6 (TModifier m) = Modifier_str m"

definition SPF_version :: string where
  "SPF_version = ''spf1''"

definition SPF_str :: "(128 word \<Rightarrow> string) \<Rightarrow> Term list \<Rightarrow> string" where
  "SPF_str ntop6 terms =
     (let result = ''v='' @ SPF_version;
          result = (if terms \<noteq> []
                    then result @ '' '' @ str_join '' '' (map (Term_str ntop6) terms)
                    else result)
      in result)"

section \<open>The specification's wording, as definitions\<close>

text \<open>
  The labels of a raw value: the text before the first delimiter character, then the
  labels of what follows that character.
\<close>

function split_labels :: "string \<Rightarrow> string \<Rightarrow> string list" where
  "split_labels delims s =
     (case dropWhile (\<lambda>c. c \<notin> set delims) s of
        [] \<Rightarrow> [s]
      | d # rest \<Rightarrow> takeWhile (\<lambda>c. c \<notin> set delims) s # split_labels delims rest)"
  by pat_completeness auto
termination
proof (relation "measure (\<lambda>(delims, s). length s)")
  show "wf (measure (\<lambda>(delims, s). length s))"
    by simp
next
  fix delims s :: string and d rest
  assume "dropWhile (\<lambda>c. c \<notin> set delims) s = d # rest"
  then have "length (d # rest) \<le> length s"
    by (metis length_dropWhile_le)
  then show "((delims, rest), (delims, s)) \<in> measure (\<lambda>(delims, s). length s)"
    by simp
qed

text \<open>The last \<open>n\<close> items of a list (all of them when there are fewer).\<close>

definition keep_last :: "nat \<Rightarrow> 'a list \<Rightarrow> 'a list" where
  "keep_last n xs = drop (length xs - n) xs"

text \<open>Steps 2 to 5 of the macro engine: split, reverse, keep the last labels, join.\<close>

definition spec_expand :: "string \<Rightarrow> bool \<Rightarrow> int option \<Rightarrow> string \<Rightarrow> string" where
  "spec_expand delims rev_flag len raw =
     (let labels = split_labels delims raw;
          labels = (if rev_flag then rev labels else labels);
          labels = (case len of None \<Rightarrow> labels | Some n \<Rightarrow> keep_last (nat n) labels)
      in str_join ''.'' labels)"

text \<open>The text a fragment contributes to an expansion.\<close>

definition fragment_text :: "Query \<Rightarrow> fragment \<Rightarrow> string \<Rightarrow> bool" where
  "fragment_text query f s = (case f of Lit i \<Rightarrow> s = i | Mac m \<Rightarrow> Macro_expand m query = Inr s)"

text \<open>Stripping the leftmost label: the text up to and including the first dot goes.\<close>

definition strip_label :: "string \<Rightarrow> string" where
  "strip_label s = tl (dropWhile (\<lambda>c. c \<noteq> CHR ''.'') s)"

text \<open>
  The octets of a text, as \<open>str.encode()\<close> gives them (UTF-8). A character of the model
  is the code point \<open>of_char c\<close>, which is below 256: a code point below 128 is one
  octet, any other one is two. \<open>len\<close> counts the code points.
\<close>

definition utf8_char :: "char \<Rightarrow> int list" where
  "utf8_char c =
     (if of_char c < (128::int) then [of_char c]
      else [192 + of_char c div 64, 128 + of_char c mod 64])"

definition utf8_encode :: "string \<Rightarrow> int list" where
  "utf8_encode s = concat (map utf8_char s)"

text \<open>
  Escaping character by character: a percent sign is doubled, a space becomes \<open>%_\<close>,
  every other character stays.
\<close>

definition escape_char :: "char \<Rightarrow> string" where
  "escape_char c = (if c = CHR ''%'' then ''%%'' else if c = CHR '' '' then ''%_'' else [c])"

text \<open>
  Escaping in one pass from the left, with \<open>%20\<close> read as one unit: \<open>%20\<close> becomes
  \<open>%-\<close>, any other percent sign is doubled, a space becomes \<open>%_\<close>.
\<close>

function escape_pass :: "string \<Rightarrow> string" where
  "escape_pass [] = []"
| "escape_pass (c # cs) =
     (if c = CHR ''%'' then
        (if take 2 cs = ''20'' then ''%-'' @ escape_pass (drop 2 cs)
         else ''%%'' @ escape_pass cs)
      else if c = CHR '' '' then ''%_'' @ escape_pass cs
      else c # escape_pass cs)"
  by pat_completeness auto
termination
  by (relation "measure length") auto

definition fragment_render :: "fragment \<Rightarrow> string" where
  "fragment_render f = (case f of Lit i \<Rightarrow> escape_pass i | Mac m \<Rightarrow> Macro_str m)"

section \<open>Facts about the primitives\<close>

text \<open>
  The defining equations of the loops are unfolded by hand, where a proof follows a step
  of the loop.
\<close>

declare strip_loop.simps [simp del]
declare dec_digits.simps [simp del]
declare count_low_zeros.simps [simp del]

lemma split_labels_Nil: "split_labels delims [] = [[]]"
  by simp

lemma split_labels_Cons:
  "split_labels delims (c # cs) =
     (if c \<in> set delims then [] # split_labels delims cs
      else (case split_labels delims cs of l # ls \<Rightarrow> (c # l) # ls | [] \<Rightarrow> []))"
proof (cases "c \<in> set delims")
  case True
  then show ?thesis
    by (simp add: split_labels.simps[of delims "c # cs"])
next
  case False
  show ?thesis
  proof (cases "dropWhile (\<lambda>c. c \<notin> set delims) cs")
    case Nil
    with False show ?thesis
      by (simp add: split_labels.simps[of delims "c # cs"] split_labels.simps[of delims cs]
          del: dropWhile_eq_Nil_conv)
  next
    case (Cons d rest)
    with False show ?thesis
      by (simp add: split_labels.simps[of delims "c # cs"] split_labels.simps[of delims cs])
  qed
qed

declare split_labels.simps [simp del]

lemma re_split_scan_labels:
  "re_split_scan delims acc s =
     (case split_labels delims s of l # ls \<Rightarrow> (rev acc @ l) # ls | [] \<Rightarrow> [])"
  by (induction s arbitrary: acc) (auto simp: split_labels_Nil split_labels_Cons split: list.splits)

lemma re_split_labels: "re_split delims s = split_labels delims s"
  by (simp add: re_split_def re_split_scan_labels split_labels.simps[of delims s] split: list.splits)

lemma length_re_split_scan:
  "length (re_split_scan delims acc s) = Suc (length (filter (\<lambda>c. c \<in> set delims) s))"
  by (induction s arbitrary: acc) auto

lemma py_slice_from_neg:
  "0 < n \<Longrightarrow> py_slice_from (- n) xs = keep_last (nat n) xs"
  by (auto simp: py_slice_from_def keep_last_def Let_def max_def intro!: arg_cong2[where f=drop])

lemma sender_has_at: "CHR ''@'' \<in> set (fst (Query_sender q))"
  by (simp add: Query_sender_def Let_def)

lemma split_sender_length: "2 \<le> length (str_split CHR ''@'' (fst (Query_sender q)))"
proof -
  have "filter (\<lambda>c. c \<in> set [CHR ''@'']) (fst (Query_sender q)) \<noteq> []"
    using sender_has_at [of q] by (simp add: filter_empty_conv)
  then have "0 < length (filter (\<lambda>c. c \<in> set [CHR ''@'']) (fst (Query_sender q)))"
    by blast
  then show ?thesis
    unfolding str_split_def length_re_split_scan by linarith
qed

lemma sender_split_0:
  "py_index (str_split CHR ''@'' (fst (Query_sender q))) 0 =
     Inr (str_split CHR ''@'' (fst (Query_sender q)) ! 0)"
  using split_sender_length [of q] by (auto simp: py_index_def Let_def)

lemma sender_split_1:
  "py_index (str_split CHR ''@'' (fst (Query_sender q))) 1 =
     Inr (str_split CHR ''@'' (fst (Query_sender q)) ! 1)"
  using split_sender_length [of q] by (simp add: py_index_def Let_def)

lemma Query_domain_no_error: "fst (Query_domain q) \<noteq> Inl e"
  by (simp add: Query_domain_def sender_split_1 split_beta split: option.splits)

lemma raw_value_no_error: "raw_value t q \<noteq> Inl e"
  using Query_domain_no_error [of q]
  by (auto simp: raw_value_def Query_ip_def sender_split_0 sender_split_1
      split: sum.splits IPAddress.splits)

lemma raw_value_unsupported: "raw_value t q = Inr None \<longleftrightarrow> t = IP_DOMAIN \<or> t = HELO"
  by (cases t) (auto simp: raw_value_def Query_ip_def sender_split_0 sender_split_1
      split: sum.splits IPAddress.splits)

lemma rest_after_first:
  assumes "x \<notin> set xs"
  shows "dropWhile (\<lambda>c. c \<noteq> x) (xs @ x # ys) = x # ys"
  using assms by (induction xs) auto


section \<open>Macro expansion\<close>

lemma Macro_init_Inr:
  "Macro_init tok len rev_flag delim = Inr m \<Longrightarrow>
     m_length m = len \<and> m_reverse m = rev_flag \<and>
     m_delimiter m = (if delim \<noteq> [] then delim else ''.'') \<and>
     Macro_Type_call tok = Inr (m_type m)"
  by (auto simp: Macro_init_def split: sum.splits)

text \<open>
  A length of 0 is falsy in the test \<open>if self.length\<close>: such a macro expands as the
  macro with no length does. The data model has no such length: a length, when set, is
  a positive integer.
\<close>

lemma Macro_expand_length_zero:
  "m_length m = Some 0 \<Longrightarrow> Macro_expand m q = Macro_expand (m\<lparr>m_length := None\<rparr>) q"
  by (simp add: Macro_expand_def length_truthy_def Let_def split: sum.splits option.splits)

text \<open>
  C1. For every macro that the constructor returns (its length, when set, a positive
  integer, as the data model has it) and every query for which the raw value resolves,
  \<open>expand\<close> returns the raw value split into labels at every character of the macro's
  delimiter, the labels reversed if \<open>reverse\<close> is set, only the last \<open>length\<close> labels
  kept if the length is set, and the labels joined with dots.
\<close>

theorem Macro_expand_labels:
  assumes "Macro_init tok len rev_flag delim = Inr m"
    and "raw_value (m_type m) q = Inr (Some raw)"
    and "\<forall>n. len = Some n \<longrightarrow> 0 < n"
  shows "Macro_expand m q =
     Inr (spec_expand (m_delimiter m) (m_reverse m) (m_length m) raw)"
proof -
  have len: "m_length m = len"
    using assms(1) by (simp add: Macro_init_Inr)
  show ?thesis
  proof (cases len)
    case None
    with len assms(2) show ?thesis
      by (simp add: Macro_expand_def spec_expand_def length_truthy_def re_split_labels Let_def)
  next
    case (Some n)
    with assms(3) have "0 < n" by simp
    with Some len assms(2) show ?thesis
      by (simp add: Macro_expand_def spec_expand_def length_truthy_def re_split_labels
          py_slice_from_neg Let_def)
  qed
qed

text \<open>
  The example of the specification, through the theorem: the domain
  \<open>email.example.com\<close>, type \<open>d\<close>, delimiter \<open>.\<close>, reversed, length 2.
\<close>

theorem Macro_expand_labels_witness:
  "Macro_init ''d'' (Some 2) True ''.'' =
     Inr \<lparr>m_type = DOMAIN, m_length = Some 2, m_reverse = True, m_delimiter = ''.''\<rparr> \<and>
   raw_value DOMAIN (Query_init ''strong-bad@email.example.com'' (Some ''email.example.com'') None) =
     Inr (Some ''email.example.com'') \<and>
   Macro_expand \<lparr>m_type = DOMAIN, m_length = Some 2, m_reverse = True, m_delimiter = ''.''\<rparr>
     (Query_init ''strong-bad@email.example.com'' (Some ''email.example.com'') None) =
     Inr ''example.email''"
proof -
  let ?m = "\<lparr>m_type = DOMAIN, m_length = Some 2, m_reverse = True, m_delimiter = ''.''\<rparr>"
  let ?q = "Query_init ''strong-bad@email.example.com'' (Some ''email.example.com'') None"
  have init: "Macro_init ''d'' (Some 2) True ''.'' = Inr ?m"
    by (simp add: Macro_init_def Macro_Type_call_def all_Types_def)
  have raw: "raw_value (m_type ?m) ?q = Inr (Some ''email.example.com'')"
    by (simp add: raw_value_def Query_domain_def Query_init_def)
  have len: "\<forall>n. Some (2::int) = Some n \<longrightarrow> 0 < n"
    by simp
  have spec: "spec_expand ''.'' True (Some 2) ''email.example.com'' = ''example.email''"
    by (simp add: spec_expand_def keep_last_def split_labels_Cons split_labels_Nil)
  from Macro_expand_labels [OF init raw len] spec init raw show ?thesis
    by simp
qed

section \<open>Macro construction\<close>

lemma Macro_Type_call_value: "Macro_Type_call (Type_value t) = Inr t"
  by (cases t) (simp_all add: Macro_Type_call_def all_Types_def)

lemma Macro_Type_call_unknown:
  "tok \<notin> Type_value ` set all_Types \<Longrightarrow> Macro_Type_call tok = Inl ValueError"
proof -
  assume "tok \<notin> Type_value ` set all_Types"
  then have "filter (\<lambda>t. Type_value t = tok) all_Types = []"
    by (auto simp: filter_empty_conv)
  then show ?thesis
    by (simp add: Macro_Type_call_def)
qed

lemma Macro_expand_resolved:
  "raw_value (m_type m) q = Inr (Some raw) \<Longrightarrow> \<exists>r. Macro_expand m q = Inr r"
  by (simp add: Macro_expand_def Let_def)

text \<open>
  C7, as amended. A token that is not the value of a macro type makes the constructor
  fail (the \<open>ValueError\<close> of the enumeration lookup) and no macro is produced. A length
  is not checked: the constructor accepts every type value with every length and
  stores the length as given, and for a length that is set and not positive \<open>expand\<close>
  still returns a string whenever the raw value resolves.
\<close>

theorem Macro_init_validation:
  "(tok \<notin> Type_value ` set all_Types \<longrightarrow> Macro_init tok len rev_flag delim = Inl ValueError) \<and>
   (\<forall>t. \<exists>m. Macro_init (Type_value t) len rev_flag delim = Inr m \<and>
             m_type m = t \<and> m_length m = len) \<and>
   (\<forall>n m q raw. n \<le> 0 \<and> Macro_init tok (Some n) rev_flag delim = Inr m \<and>
        raw_value (m_type m) q = Inr (Some raw) \<longrightarrow> (\<exists>r. Macro_expand m q = Inr r))"
proof (intro conjI allI impI)
  assume "tok \<notin> Type_value ` set all_Types"
  then show "Macro_init tok len rev_flag delim = Inl ValueError"
    by (simp add: Macro_init_def Macro_Type_call_unknown)
next
  fix t
  show "\<exists>m. Macro_init (Type_value t) len rev_flag delim = Inr m \<and> m_type m = t \<and> m_length m = len"
    by (simp add: Macro_init_def Macro_Type_call_value)
next
  fix n m q raw
  assume "n \<le> 0 \<and> Macro_init tok (Some n) rev_flag delim = Inr m \<and>
    raw_value (m_type m) q = Inr (Some raw)"
  then show "\<exists>r. Macro_expand m q = Inr r"
    by (simp add: Macro_expand_resolved)
qed

text \<open>
  The theorem at the unknown token \<open>x\<close>, and at the type \<open>d\<close> with the length \<open>-1\<close>
  for the domain \<open>a.b\<close>.
\<close>

theorem Macro_init_validation_witness:
  "''x'' \<notin> Type_value ` set all_Types \<and>
   Macro_init ''x'' (Some 3) False ''.'' = Inl ValueError \<and>
   Macro_init ''d'' (Some (- 1)) False ''.'' =
     Inr \<lparr>m_type = DOMAIN, m_length = Some (- 1), m_reverse = False, m_delimiter = ''.''\<rparr> \<and>
   raw_value DOMAIN (Query_init ''user@a.b'' None None) = Inr (Some ''a.b'') \<and>
   (\<exists>r. Macro_expand
          \<lparr>m_type = DOMAIN, m_length = Some (- 1), m_reverse = False, m_delimiter = ''.''\<rparr>
          (Query_init ''user@a.b'' None None) = Inr r)"
proof -
  let ?m = "\<lparr>m_type = DOMAIN, m_length = Some (- 1), m_reverse = False, m_delimiter = ''.''\<rparr>"
  let ?q = "Query_init ''user@a.b'' None None"
  have unknown: "''x'' \<notin> Type_value ` set all_Types"
    by (simp add: all_Types_def)
  have init: "Macro_init ''d'' (Some (- 1)) False ''.'' = Inr ?m"
    by (simp add: Macro_init_def Macro_Type_call_def all_Types_def)
  have raw: "raw_value (m_type ?m) ?q = Inr (Some ''a.b'')"
    by code_simp
  from Macro_init_validation [of "''x''" "Some 3" False "''.''"] unknown
  have fails: "Macro_init ''x'' (Some 3) False ''.'' = Inl ValueError"
    by blast
  from Macro_init_validation [of "''d''" "Some (- 1)" False "''.''"] init raw
  have "\<exists>r. Macro_expand ?m ?q = Inr r"
    by (metis neg_le_0_iff_le zero_le_one)
  with unknown fails init raw show ?thesis
    by simp
qed

text \<open>
  C7 as stated fails for a length that is not positive: the macro is constructed, it
  renders, and it expands to a string.
\<close>

theorem Macro_negative_length_counterexample:
  "Macro_init ''d'' (Some (- 1)) False ''.'' =
     Inr \<lparr>m_type = DOMAIN, m_length = Some (- 1), m_reverse = False, m_delimiter = ''.''\<rparr> \<and>
   Macro_str \<lparr>m_type = DOMAIN, m_length = Some (- 1), m_reverse = False, m_delimiter = ''.''\<rparr> =
     ''%{d-1}'' \<and>
   Macro_expand \<lparr>m_type = DOMAIN, m_length = Some (- 1), m_reverse = False, m_delimiter = ''.''\<rparr>
     (Query_init ''user@a.b'' None None) = Inr ''b''"
  by code_simp

section \<open>The default delimiter\<close>

text \<open>
  C10. A macro constructed with the empty string as delimiter is the macro constructed
  with \<open>.\<close>: the stored delimiter is \<open>.\<close>, the rendering has no delimiter characters
  before the closing brace, and \<open>expand\<close> splits the raw value at the dots.
\<close>

theorem empty_delimiter_is_default:
  "Macro_init tok len rev_flag [] = Macro_init tok len rev_flag ''.'' \<and>
   (\<forall>m. Macro_init tok len rev_flag [] = Inr m \<longrightarrow>
      m_delimiter m = ''.'' \<and>
      Macro_str m =
        ''%{'' @ Type_value (m_type m) @ (if length_truthy len then fmt_d (the len) else [])
          @ (if rev_flag then ''r'' else []) @ ''}'' \<and>
      (\<forall>q raw. raw_value (m_type m) q = Inr (Some raw) \<longrightarrow>
         Macro_expand m q =
           Inr (str_join ''.''
                 ((if length_truthy len then py_slice_from (- the len) else id)
                    ((if rev_flag then rev else id) (split_labels ''.'' raw))))))"
proof (intro conjI allI impI)
  show "Macro_init tok len rev_flag [] = Macro_init tok len rev_flag ''.''"
    by (simp add: Macro_init_def)
next
  fix m
  assume init: "Macro_init tok len rev_flag [] = Inr m"
  then have fields: "m_length m = len" "m_reverse m = rev_flag" "m_delimiter m = ''.''"
    by (simp_all add: Macro_init_Inr)
  show "m_delimiter m = ''.''"
    by (rule fields)
  show "Macro_str m =
      ''%{'' @ Type_value (m_type m) @ (if length_truthy len then fmt_d (the len) else [])
        @ (if rev_flag then ''r'' else []) @ ''}''"
    by (simp add: Macro_str_def fields Let_def)
  fix q raw
  assume "raw_value (m_type m) q = Inr (Some raw)"
  then show "Macro_expand m q =
      Inr (str_join ''.''
            ((if length_truthy len then py_slice_from (- the len) else id)
               ((if rev_flag then rev else id) (split_labels ''.'' raw))))"
    by (simp add: Macro_expand_def fields Let_def re_split_labels)
qed

text \<open>The theorem at \<open>Macro("d", delimiter="")\<close> and the domain \<open>a.b\<close>.\<close>

theorem empty_delimiter_is_default_witness:
  "Macro_init ''d'' None False [] =
     Inr \<lparr>m_type = DOMAIN, m_length = None, m_reverse = False, m_delimiter = ''.''\<rparr> \<and>
   Macro_str \<lparr>m_type = DOMAIN, m_length = None, m_reverse = False, m_delimiter = ''.''\<rparr> =
     ''%{d}'' \<and>
   raw_value DOMAIN (Query_init ''user@a.b'' None None) = Inr (Some ''a.b'') \<and>
   Macro_expand \<lparr>m_type = DOMAIN, m_length = None, m_reverse = False, m_delimiter = ''.''\<rparr>
     (Query_init ''user@a.b'' None None) = Inr ''a.b''"
proof -
  let ?m = "\<lparr>m_type = DOMAIN, m_length = None, m_reverse = False, m_delimiter = ''.''\<rparr>"
  let ?q = "Query_init ''user@a.b'' None None"
  have init: "Macro_init ''d'' None False [] = Inr ?m"
    by (simp add: Macro_init_def Macro_Type_call_def all_Types_def)
  have raw: "raw_value (m_type ?m) ?q = Inr (Some ''a.b'')"
    by code_simp
  have labels: "split_labels ''.'' ''a.b'' = [''a'', ''b'']"
    by (simp add: split_labels_Cons split_labels_Nil)
  from empty_delimiter_is_default [of "''d''" None False] init
  have "Macro_str ?m = ''%{'' @ Type_value (m_type ?m) @ ''}''"
    and "\<forall>q raw. raw_value (m_type ?m) q = Inr (Some raw) \<longrightarrow>
      Macro_expand ?m q = Inr (str_join ''.'' (split_labels ''.'' raw))"
    by (simp_all add: length_truthy_def)
  with init raw labels show ?thesis
    by simp
qed

section \<open>Query\<close>

lemma Query_sender_bare:
  "CHR ''@'' \<notin> set (q_sender q) \<Longrightarrow> fst (Query_sender q) = ''postmaster@'' @ q_sender q"
  by (simp add: Query_sender_def)

lemma Query_sender_address:
  "CHR ''@'' \<in> set (q_sender q) \<Longrightarrow> fst (Query_sender q) = q_sender q"
  by (simp add: Query_sender_def)

lemma Query_ip_default: "fst (Query_ip (Query_init sender domain None)) = loopback"
  by (simp add: Query_ip_def Query_init_def)

lemma Query_accessors_keep_self:
  "snd (Query_sender q) = q \<and> snd (Query_domain q) = q \<and> snd (Query_ip q) = q"
  by (simp add: Query_sender_def Query_domain_def Query_ip_def Let_def split: option.splits)

lemma split_labels_at_first:
  assumes "c \<notin> set local"
  shows "split_labels [c] (local @ c # rest) = local # split_labels [c] rest"
  using assms by (induction local) (auto simp: split_labels_Cons)

lemma split_labels_head:
  "\<exists>ls. split_labels [c] s = takeWhile (\<lambda>x. x \<noteq> c) s # ls"
  by (induction s) (auto simp: split_labels_Nil split_labels_Cons)

text \<open>
  The fallback of the \<open>domain\<close> property in general: the sender is cut at its first
  \<open>@\<close>, and the domain is what follows up to the next \<open>@\<close>. For a sender with one
  \<open>@\<close> that is everything after it.
\<close>

lemma Query_domain_fallback:
  assumes "q_domain q = None"
  shows "\<exists>local rest. fst (Query_sender q) = local @ CHR ''@'' # rest \<and>
           CHR ''@'' \<notin> set local \<and>
           fst (Query_domain q) = Inr (takeWhile (\<lambda>x. x \<noteq> CHR ''@'') rest)"
proof -
  from sender_has_at [of q]
  obtain local rest where s: "fst (Query_sender q) = local @ CHR ''@'' # rest"
    and l: "CHR ''@'' \<notin> set local"
    by (meson split_list_first)
  obtain ls where ls: "split_labels [CHR ''@''] rest = takeWhile (\<lambda>x. x \<noteq> CHR ''@'') rest # ls"
    using split_labels_head by blast
  have "str_split CHR ''@'' (fst (Query_sender q)) =
      local # takeWhile (\<lambda>x. x \<noteq> CHR ''@'') rest # ls"
    using l ls by (simp add: str_split_def re_split_scan_labels s split_labels_at_first)
  then have "str_split CHR ''@'' (fst (Query_sender q)) ! 1 = takeWhile (\<lambda>x. x \<noteq> CHR ''@'') rest"
    by simp
  with assms have "fst (Query_domain q) = Inr (takeWhile (\<lambda>x. x \<noteq> CHR ''@'') rest)"
    by (simp add: Query_domain_def split_beta sender_split_1)
  with s l show ?thesis
    by blast
qed

lemma Query_domain_single_at:
  assumes "q_domain q = None"
    and "fst (Query_sender q) = local @ CHR ''@'' # rest"
    and "CHR ''@'' \<notin> set local" and "CHR ''@'' \<notin> set rest"
  shows "fst (Query_domain q) = Inr rest"
proof -
  from Query_domain_fallback [OF assms(1)]
  obtain local' rest' where s: "fst (Query_sender q) = local' @ CHR ''@'' # rest'"
    and l: "CHR ''@'' \<notin> set local'"
    and d: "fst (Query_domain q) = Inr (takeWhile (\<lambda>x. x \<noteq> CHR ''@'') rest')"
    by blast
  from s assms(2) have "local' @ CHR ''@'' # rest' = local @ CHR ''@'' # rest"
    by simp
  then have "dropWhile (\<lambda>c. c \<noteq> CHR ''@'') (local' @ CHR ''@'' # rest') =
      dropWhile (\<lambda>c. c \<noteq> CHR ''@'') (local @ CHR ''@'' # rest)"
    by (rule arg_cong)
  then have "rest' = rest"
    unfolding rest_after_first [OF l] rest_after_first [OF assms(3)] by simp
  with d assms(4) show ?thesis
    by (auto simp: takeWhile_eq_all_conv)
qed

text \<open>
  C9. The sender \<open>"a@b"@example.com\<close> (a quoted local part that holds an \<open>@\<close>) has the
  domain part \<open>example.com\<close>; with no domain set, the \<open>domain\<close> property returns the text
  between the first and the second \<open>@\<close> instead. The character \<open>CHR 0x22\<close> is the
  double quote.
\<close>

theorem Query_domain_quoted_local_part:
  "fst (Query_sender (Query_init (CHR 0x22 # ''a@b'' @ CHR 0x22 # ''@example.com'') None None)) =
     CHR 0x22 # ''a@b'' @ CHR 0x22 # ''@example.com'' \<and>
   fst (Query_domain (Query_init (CHR 0x22 # ''a@b'' @ CHR 0x22 # ''@example.com'') None None)) =
     Inr (''b'' @ [CHR 0x22])"
  by code_simp

section \<open>Expanding a Domain\<close>

lemma Macro_expand_error: "Macro_expand m q = Inl e \<Longrightarrow> e = TypeError"
  using raw_value_no_error [of "m_type m" q]
  by (auto simp: Macro_expand_def Let_def split: sum.splits option.splits)

lemma Macro_expand_unsupported:
  "m_type m = IP_DOMAIN \<or> m_type m = HELO \<Longrightarrow> Macro_expand m q = Inl TypeError"
  using raw_value_unsupported [of "m_type m" q] by (simp add: Macro_expand_def)

lemma expand_loop_raises:
  "Mac m \<in> set d \<Longrightarrow> Macro_expand m q = Inl TypeError \<Longrightarrow> expand_loop d q result = Inl TypeError"
proof (induction d arbitrary: result)
  case Nil
  then show ?case by simp
next
  case (Cons f d)
  show ?case
  proof (cases f)
    case (Lit i)
    with Cons show ?thesis by simp
  next
    case (Mac m')
    show ?thesis
    proof (cases "Macro_expand m' q")
      case (Inl e)
      with Mac Macro_expand_error [OF Inl] show ?thesis
        by simp
    next
      case (Inr x)
      with Cons.prems have "Mac m \<in> set d"
        using Mac by auto
      with Cons.IH Cons.prems(2) Mac Inr show ?thesis
        by simp
    qed
  qed
qed

text \<open>
  C8. A macro of type \<open>p\<close> (IpDomain) or \<open>h\<close> (Helo) has no raw value in a
  \<open>Query\<close>: \<open>expand\<close> fails, with the \<open>TypeError\<close> that \<open>re.split\<close> raises on \<open>None\<close>,
  and \<open>Domain.expand\<close>, the caller, fails with that same error for every domain that
  holds such a macro.
\<close>

theorem unsupported_macro_fails:
  assumes "m_type m = IP_DOMAIN \<or> m_type m = HELO"
  shows "Macro_expand m q = Inl TypeError \<and>
    (\<forall>d. Mac m \<in> set d \<longrightarrow> Domain_expand d q = Inl TypeError)"
proof
  show failed: "Macro_expand m q = Inl TypeError"
    using assms by (rule Macro_expand_unsupported)
  show "\<forall>d. Mac m \<in> set d \<longrightarrow> Domain_expand d q = Inl TypeError"
    by (simp add: Domain_expand_def expand_loop_raises [OF _ failed])
qed

text \<open>The theorem at \<open>%{h}\<close> inside the domain \<open>x.%{h}\<close>.\<close>

theorem unsupported_macro_fails_witness:
  "Macro_expand \<lparr>m_type = HELO, m_length = None, m_reverse = False, m_delimiter = ''.''\<rparr>
     (Query_init ''user@a.b'' None None) = Inl TypeError \<and>
   Domain_expand
     [Lit ''x.'', Mac \<lparr>m_type = HELO, m_length = None, m_reverse = False, m_delimiter = ''.''\<rparr>]
     (Query_init ''user@a.b'' None None) = Inl TypeError"
proof -
  let ?m = "\<lparr>m_type = HELO, m_length = None, m_reverse = False, m_delimiter = ''.''\<rparr>"
  have unsupported: "m_type ?m = IP_DOMAIN \<or> m_type ?m = HELO"
    by simp
  from unsupported_macro_fails [OF unsupported, of "Query_init ''user@a.b'' None None"]
  show ?thesis
    by simp
qed

subsection \<open>The concatenation\<close>

lemma expand_loop_pieces:
  "expand_loop d q result = Inr full \<Longrightarrow>
     \<exists>pieces. list_all2 (fragment_text q) d pieces \<and> full = result @ concat pieces"
proof (induction d arbitrary: result)
  case Nil
  then show ?case by simp
next
  case (Cons f d)
  show ?case
  proof (cases f)
    case (Lit i)
    with Cons.prems have "expand_loop d q (result @ i) = Inr full"
      by simp
    from Cons.IH [OF this] obtain pieces
      where "list_all2 (fragment_text q) d pieces" and "full = (result @ i) @ concat pieces"
      by blast
    with Lit have "list_all2 (fragment_text q) (f # d) (i # pieces) \<and>
        full = result @ concat (i # pieces)"
      by (simp add: fragment_text_def)
    then show ?thesis
      by blast
  next
    case (Mac m)
    with Cons.prems obtain x where x: "Macro_expand m q = Inr x"
      and rest: "expand_loop d q (result @ x) = Inr full"
      by (auto split: sum.splits)
    from Cons.IH [OF rest] obtain pieces
      where "list_all2 (fragment_text q) d pieces" and "full = (result @ x) @ concat pieces"
      by blast
    with Mac x have "list_all2 (fragment_text q) (f # d) (x # pieces) \<and>
        full = result @ concat (x # pieces)"
      by (simp add: fragment_text_def)
    then show ?thesis
      by blast
  qed
qed

subsection \<open>The length cap\<close>

lemma str_index_found:
  "str_index s c = Inr i \<Longrightarrow> s = take i s @ c # drop (Suc i) s \<and> c \<notin> set (take i s)"
proof (induction s arbitrary: i)
  case Nil
  then show ?case by simp
next
  case (Cons x xs)
  show ?case
  proof (cases "x = c")
    case True
    with Cons.prems show ?thesis by simp
  next
    case False
    with Cons.prems obtain j where j: "str_index xs c = Inr j" and i: "i = Suc j"
      by (auto split: sum.splits)
    from Cons.IH [OF j] False i show ?thesis
      by simp
  qed
qed

lemma str_index_strip_label:
  assumes "str_index s CHR ''.'' = Inr i"
  shows "drop (i + 1) s = strip_label s"
proof -
  from str_index_found [OF assms]
  have s: "s = take i s @ CHR ''.'' # drop (Suc i) s" and no: "CHR ''.'' \<notin> set (take i s)"
    by simp_all
  from no have "dropWhile (\<lambda>c. c \<noteq> CHR ''.'') (take i s @ CHR ''.'' # drop (Suc i) s) =
      CHR ''.'' # drop (Suc i) s"
    by (rule rest_after_first)
  with s show ?thesis
    by (simp add: strip_label_def)
qed

lemma strip_loop_capped: "strip_loop s = Inr r \<Longrightarrow> length r \<le> 253"
proof (induction s rule: strip_loop.induct)
  case (1 result)
  show ?case
  proof (cases "253 < length result")
    case True
    with "1.prems" obtain i where i: "str_index result CHR ''.'' = Inr i"
      and rest: "strip_loop (drop (i + 1) result) = Inr r"
      by (subst (asm) strip_loop.simps) (auto split: sum.splits)
    from "1.IH" [OF True i rest] show ?thesis .
  next
    case False
    with "1.prems" show ?thesis
      by (subst (asm) strip_loop.simps) simp
  qed
qed

lemma strip_loop_suffix:
  "strip_loop s = Inr r \<Longrightarrow> r = s \<or> (\<exists>pre. s = pre @ CHR ''.'' # r)"
proof (induction s rule: strip_loop.induct)
  case (1 result)
  show ?case
  proof (cases "253 < length result")
    case True
    with "1.prems" obtain i where i: "str_index result CHR ''.'' = Inr i"
      and rest: "strip_loop (drop (i + 1) result) = Inr r"
      by (subst (asm) strip_loop.simps) (auto split: sum.splits)
    from str_index_found [OF i]
    have cut: "result = take i result @ CHR ''.'' # drop (i + 1) result"
      by simp
    from "1.IH" [OF True i rest]
    consider "r = drop (i + 1) result" | pre where "drop (i + 1) result = pre @ CHR ''.'' # r"
      by blast
    then show ?thesis
    proof cases
      case 1
      with cut have "result = take i result @ CHR ''.'' # r"
        by simp
      then show ?thesis
        by blast
    next
      case 2
      with cut have "result = (take i result @ CHR ''.'' # pre) @ CHR ''.'' # r"
        by simp
      then show ?thesis
        by blast
    qed
  next
    case False
    with "1.prems" show ?thesis
      by (subst (asm) strip_loop.simps) simp
  qed
qed

lemma str_index_member: "c \<in> set s \<Longrightarrow> \<exists>i. str_index s c = Inr i"
  by (induction s) auto

lemma str_index_has: "str_index s c = Inr i \<Longrightarrow> c \<in> set s"
  by (induction s arbitrary: i) (auto split: if_splits sum.splits)

lemma str_index_absent: "c \<notin> set s \<Longrightarrow> str_index s c = Inl ValueError"
  by (induction s) auto

text \<open>One round of the loop, and its end.\<close>

lemma strip_loop_step:
  assumes "253 < length s" and "CHR ''.'' \<in> set s"
  shows "strip_loop s = strip_loop (strip_label s)"
proof -
  from str_index_member [OF assms(2)] obtain i where i: "str_index s CHR ''.'' = Inr i"
    by blast
  with assms(1) have "strip_loop s = strip_loop (drop (i + 1) s)"
    by (subst strip_loop.simps) simp
  with str_index_strip_label [OF i] show ?thesis
    by simp
qed

lemma strip_loop_stop: "length s \<le> 253 \<Longrightarrow> strip_loop s = Inr s"
  by (subst strip_loop.simps) simp

lemma strip_loop_rounds:
  "\<forall>j<k. 253 < length ((strip_label ^^ j) s) \<and> CHR ''.'' \<in> set ((strip_label ^^ j) s) \<Longrightarrow>
     strip_loop s = strip_loop ((strip_label ^^ k) s)"
proof (induction k)
  case 0
  show ?case by simp
next
  case (Suc k)
  then have "strip_loop s = strip_loop ((strip_label ^^ k) s)"
    by simp
  also from Suc.prems have "\<dots> = strip_loop (strip_label ((strip_label ^^ k) s))"
    by (intro strip_loop_step) simp_all
  finally show ?case
    by simp
qed

lemma strip_loop_iterates:
  "strip_loop s = Inr r \<Longrightarrow>
     \<exists>k. r = (strip_label ^^ k) s \<and>
       (\<forall>j<k. 253 < length ((strip_label ^^ j) s) \<and> CHR ''.'' \<in> set ((strip_label ^^ j) s))"
proof (induction s rule: strip_loop.induct)
  case (1 result)
  show ?case
  proof (cases "253 < length result")
    case True
    with "1.prems" obtain i where i: "str_index result CHR ''.'' = Inr i"
      and rest: "strip_loop (drop (i + 1) result) = Inr r"
      by (subst (asm) strip_loop.simps) (auto split: sum.splits)
    from "1.IH" [OF True i rest, unfolded str_index_strip_label [OF i]] obtain k
      where k: "r = (strip_label ^^ k) (strip_label result)"
        and above: "\<forall>j<k. 253 < length ((strip_label ^^ j) (strip_label result)) \<and>
          CHR ''.'' \<in> set ((strip_label ^^ j) (strip_label result))"
      by blast
    have "r = (strip_label ^^ Suc k) result"
      using k by (simp add: funpow_swap1)
    moreover have "\<forall>j<Suc k. 253 < length ((strip_label ^^ j) result) \<and>
        CHR ''.'' \<in> set ((strip_label ^^ j) result)"
    proof (intro allI impI)
      fix j
      assume "j < Suc k"
      show "253 < length ((strip_label ^^ j) result) \<and> CHR ''.'' \<in> set ((strip_label ^^ j) result)"
      proof (cases j)
        case 0
        with True str_index_has [OF i] show ?thesis by simp
      next
        case (Suc j')
        with \<open>j < Suc k\<close> above show ?thesis
          by (simp add: funpow_swap1)
      qed
    qed
    ultimately show ?thesis
      by blast
  next
    case False
    with "1.prems" have "r = (strip_label ^^ 0) result"
      by (subst (asm) strip_loop.simps) simp
    then show ?thesis
      by blast
  qed
qed

text \<open>
  The loop fails exactly when the stripping reaches a text of more than 253 characters
  with no dot in it, and then with the \<open>ValueError\<close> of \<open>str.index\<close>.
\<close>

lemma strip_loop_overflow:
  "strip_loop s = Inl e \<longleftrightarrow>
     e = ValueError \<and>
     (\<exists>k. (\<forall>j<k. 253 < length ((strip_label ^^ j) s) \<and> CHR ''.'' \<in> set ((strip_label ^^ j) s)) \<and>
          253 < length ((strip_label ^^ k) s) \<and> CHR ''.'' \<notin> set ((strip_label ^^ k) s))"
  (is "?lhs \<longleftrightarrow> ?rhs")
proof
  assume ?rhs
  then obtain k
    where rounds: "\<forall>j<k. 253 < length ((strip_label ^^ j) s) \<and> CHR ''.'' \<in> set ((strip_label ^^ j) s)"
      and long: "253 < length ((strip_label ^^ k) s)"
      and nodot: "CHR ''.'' \<notin> set ((strip_label ^^ k) s)"
      and e: "e = ValueError"
    by blast
  from nodot have "str_index ((strip_label ^^ k) s) CHR ''.'' = Inl ValueError"
    by (rule str_index_absent)
  with long have "strip_loop ((strip_label ^^ k) s) = Inl ValueError"
    by (subst strip_loop.simps) simp
  with strip_loop_rounds [OF rounds] e show ?lhs
    by simp
next
  assume ?lhs
  then show ?rhs
  proof (induction s rule: strip_loop.induct)
    case (1 result)
    from "1.prems" have long: "253 < length result"
      by (subst (asm) strip_loop.simps) (simp split: if_splits)
    show ?case
    proof (cases "str_index result CHR ''.''")
      case (Inl e')
      have nodot: "CHR ''.'' \<notin> set result"
        using Inl str_index_member [of "CHR ''.''" result] by auto
      then have "str_index result CHR ''.'' = Inl ValueError"
        by (rule str_index_absent)
      with long "1.prems" have "e = ValueError"
        by (subst (asm) strip_loop.simps) simp
      moreover from long nodot
      have "(\<forall>j<0. 253 < length ((strip_label ^^ j) result) \<and>
               CHR ''.'' \<in> set ((strip_label ^^ j) result)) \<and>
          253 < length ((strip_label ^^ 0) result) \<and> CHR ''.'' \<notin> set ((strip_label ^^ 0) result)"
        by simp
      ultimately show ?thesis
        by blast
    next
      case (Inr i)
      with long "1.prems" have rest: "strip_loop (drop (i + 1) result) = Inl e"
        by (subst (asm) strip_loop.simps) simp
      from "1.IH" [OF long Inr rest, unfolded str_index_strip_label [OF Inr]] obtain k
        where e: "e = ValueError"
          and above: "\<forall>j<k. 253 < length ((strip_label ^^ j) (strip_label result)) \<and>
            CHR ''.'' \<in> set ((strip_label ^^ j) (strip_label result))"
          and last: "253 < length ((strip_label ^^ k) (strip_label result))"
            "CHR ''.'' \<notin> set ((strip_label ^^ k) (strip_label result))"
        by blast
      have "\<forall>j<Suc k. 253 < length ((strip_label ^^ j) result) \<and>
          CHR ''.'' \<in> set ((strip_label ^^ j) result)"
      proof (intro allI impI)
        fix j
        assume "j < Suc k"
        show "253 < length ((strip_label ^^ j) result) \<and> CHR ''.'' \<in> set ((strip_label ^^ j) result)"
        proof (cases j)
          case 0
          with long str_index_has [OF Inr] show ?thesis by simp
        next
          case (Suc j')
          with \<open>j < Suc k\<close> above show ?thesis
            by (simp add: funpow_swap1)
        qed
      qed
      moreover from last have "253 < length ((strip_label ^^ Suc k) result)"
        "CHR ''.'' \<notin> set ((strip_label ^^ Suc k) result)"
        by (simp_all add: funpow_swap1)
      ultimately show ?thesis
        using e by blast
    qed
  qed
qed

subsection \<open>The concatenation, the other way round\<close>

lemma expand_loop_concat:
  "list_all2 (fragment_text q) d pieces \<Longrightarrow>
     expand_loop d q result = Inr (result @ concat pieces)"
proof (induction d arbitrary: pieces result)
  case Nil
  then show ?case by simp
next
  case (Cons f d)
  from Cons.prems obtain p ps where pieces: "pieces = p # ps"
    and p: "fragment_text q f p" and ps: "list_all2 (fragment_text q) d ps"
    by (auto simp: list_all2_Cons1)
  show ?case
  proof (cases f)
    case (Lit i)
    with p have "p = i"
      by (simp add: fragment_text_def)
    with Lit pieces Cons.IH [OF ps, of "result @ i"] show ?thesis
      by simp
  next
    case (Mac m)
    with p have "Macro_expand m q = Inr p"
      by (simp add: fragment_text_def)
    with Mac pieces Cons.IH [OF ps, of "result @ p"] show ?thesis
      by simp
  qed
qed

text \<open>
  When every macro fragment expands, \<open>Domain.expand\<close> fails exactly when the stripping
  runs out of dots above 253 characters.
\<close>

lemma Domain_expand_overflow:
  assumes "list_all2 (fragment_text q) d pieces"
  shows "Domain_expand d q = Inl e \<longleftrightarrow>
     e = ValueError \<and>
     (\<exists>k. (\<forall>j<k. 253 < length ((strip_label ^^ j) (concat pieces)) \<and>
                  CHR ''.'' \<in> set ((strip_label ^^ j) (concat pieces))) \<and>
          253 < length ((strip_label ^^ k) (concat pieces)) \<and>
          CHR ''.'' \<notin> set ((strip_label ^^ k) (concat pieces)))"
proof -
  from expand_loop_concat [OF assms, of "[]"]
  have "Domain_expand d q = strip_loop (concat pieces)"
    by (simp add: Domain_expand_def)
  then show ?thesis
    by (simp only: strip_loop_overflow)
qed

subsection \<open>Characters and octets\<close>

lemma utf8_encode_length: "length s \<le> length (utf8_encode s)"
  by (induction s) (simp_all add: utf8_encode_def utf8_char_def)

lemma utf8_encode_ascii:
  "\<forall>c\<in>set s. of_char c < (128::int) \<Longrightarrow> length (utf8_encode s) = length s"
  by (induction s) (simp_all add: utf8_encode_def utf8_char_def)

text \<open>
  C2, as amended. With \<open>pieces\<close> the literal fragments as they are and the expansions
  of the macro fragments, in order, \<open>Domain.expand\<close> returns \<open>r\<close> exactly when every
  macro fragment expands and stripping the leftmost label from the concatenation of
  the pieces, again and again while the text is longer than 253 characters (each time a
  dot is left to strip at), ends at \<open>r\<close> with at most 253 characters. Whenever it
  returns, the result is at most 253 characters long and is the concatenation or what
  follows one of its dots. The length is the number of characters, as \<open>len\<close> counts:
  that is the number of octets where the result is ASCII text.
\<close>

theorem Domain_expand_capped:
  "(Domain_expand d q = Inr r \<longleftrightarrow>
      (\<exists>pieces k. list_all2 (fragment_text q) d pieces \<and>
         (\<forall>j<k. 253 < length ((strip_label ^^ j) (concat pieces)) \<and>
                  CHR ''.'' \<in> set ((strip_label ^^ j) (concat pieces))) \<and>
         length ((strip_label ^^ k) (concat pieces)) \<le> 253 \<and>
         r = (strip_label ^^ k) (concat pieces))) \<and>
   (Domain_expand d q = Inr r \<longrightarrow>
      length r \<le> 253 \<and>
      (\<exists>pieces. list_all2 (fragment_text q) d pieces \<and>
         (r = concat pieces \<or> (\<exists>pre. concat pieces = pre @ CHR ''.'' # r))) \<and>
      ((\<forall>c\<in>set r. of_char c < (128::int)) \<longrightarrow> length (utf8_encode r) \<le> 253))"
proof (rule conjI)
  show "Domain_expand d q = Inr r \<longleftrightarrow>
      (\<exists>pieces k. list_all2 (fragment_text q) d pieces \<and>
         (\<forall>j<k. 253 < length ((strip_label ^^ j) (concat pieces)) \<and>
                  CHR ''.'' \<in> set ((strip_label ^^ j) (concat pieces))) \<and>
         length ((strip_label ^^ k) (concat pieces)) \<le> 253 \<and>
         r = (strip_label ^^ k) (concat pieces))"
    (is "?returns \<longleftrightarrow> ?stripped")
  proof
    assume ?returns
    then obtain full where full: "expand_loop d q [] = Inr full"
      and strip: "strip_loop full = Inr r"
      by (auto simp: Domain_expand_def split: sum.splits)
    from expand_loop_pieces [OF full] obtain pieces
      where pieces: "list_all2 (fragment_text q) d pieces" and full_eq: "full = concat pieces"
      by auto
    from strip_loop_iterates [OF strip] obtain k
      where k: "r = (strip_label ^^ k) full"
        and rounds: "\<forall>j<k. 253 < length ((strip_label ^^ j) full) \<and>
          CHR ''.'' \<in> set ((strip_label ^^ j) full)"
      by blast
    from strip_loop_capped [OF strip] k have "length ((strip_label ^^ k) full) \<le> 253"
      by simp
    with pieces k rounds show ?stripped
      unfolding full_eq by blast
  next
    assume ?stripped
    then obtain pieces k
      where pieces: "list_all2 (fragment_text q) d pieces"
        and rounds: "\<forall>j<k. 253 < length ((strip_label ^^ j) (concat pieces)) \<and>
          CHR ''.'' \<in> set ((strip_label ^^ j) (concat pieces))"
        and short: "length ((strip_label ^^ k) (concat pieces)) \<le> 253"
        and r: "r = (strip_label ^^ k) (concat pieces)"
      by blast
    from expand_loop_concat [OF pieces, of "[]"]
    have "expand_loop d q [] = Inr (concat pieces)"
      by simp
    moreover from strip_loop_rounds [OF rounds] strip_loop_stop [OF short] r
    have "strip_loop (concat pieces) = Inr r"
      by simp
    ultimately show ?returns
      by (simp add: Domain_expand_def)
  qed
next
  show "Domain_expand d q = Inr r \<longrightarrow>
      length r \<le> 253 \<and>
      (\<exists>pieces. list_all2 (fragment_text q) d pieces \<and>
         (r = concat pieces \<or> (\<exists>pre. concat pieces = pre @ CHR ''.'' # r))) \<and>
      ((\<forall>c\<in>set r. of_char c < (128::int)) \<longrightarrow> length (utf8_encode r) \<le> 253)"
  proof
    assume "Domain_expand d q = Inr r"
    then obtain full where full: "expand_loop d q [] = Inr full"
      and strip: "strip_loop full = Inr r"
      by (auto simp: Domain_expand_def split: sum.splits)
    from expand_loop_pieces [OF full] obtain pieces
      where pieces: "list_all2 (fragment_text q) d pieces" and full_eq: "full = concat pieces"
      by auto
    have capped: "length r \<le> 253"
      using strip by (rule strip_loop_capped)
    moreover from strip_loop_suffix [OF strip] pieces
    have "\<exists>pieces. list_all2 (fragment_text q) d pieces \<and>
        (r = concat pieces \<or> (\<exists>pre. concat pieces = pre @ CHR ''.'' # r))"
      unfolding full_eq by blast
    moreover have "(\<forall>c\<in>set r. of_char c < (128::int)) \<longrightarrow> length (utf8_encode r) \<le> 253"
      using capped by (simp add: utf8_encode_ascii)
    ultimately show "length r \<le> 253 \<and>
      (\<exists>pieces. list_all2 (fragment_text q) d pieces \<and>
         (r = concat pieces \<or> (\<exists>pre. concat pieces = pre @ CHR ''.'' # r))) \<and>
      ((\<forall>c\<in>set r. of_char c < (128::int)) \<longrightarrow> length (utf8_encode r) \<le> 253)"
      by blast
  qed
qed

text \<open>
  The theorem at a domain that is stripped twice: 250 letters \<open>a\<close> and a dot, 250
  letters \<open>b\<close> and a dot, then \<open>%{d}\<close>, for the checked domain \<open>example.com\<close>. The
  concatenation has 513 characters, 262 are left after the first round, and the second
  round leaves \<open>example.com\<close>, which is what \<open>expand\<close> returns.
\<close>

theorem Domain_expand_capped_witness:
  "list_all2 (fragment_text (Query_init ''user@example.com'' None None))
     [Lit (replicate 250 CHR ''a'' @ ''.'' @ replicate 250 CHR ''b'' @ ''.''),
      Mac \<lparr>m_type = DOMAIN, m_length = None, m_reverse = False, m_delimiter = ''.''\<rparr>]
     [replicate 250 CHR ''a'' @ ''.'' @ replicate 250 CHR ''b'' @ ''.'', ''example.com''] \<and>
   length (replicate 250 CHR ''a'' @ ''.'' @ replicate 250 CHR ''b'' @ ''.example.com'') = 513 \<and>
   strip_label (replicate 250 CHR ''a'' @ ''.'' @ replicate 250 CHR ''b'' @ ''.example.com'') =
     replicate 250 CHR ''b'' @ ''.example.com'' \<and>
   length (replicate 250 CHR ''b'' @ ''.example.com'') = 262 \<and>
   strip_label (replicate 250 CHR ''b'' @ ''.example.com'') = ''example.com'' \<and>
   Domain_expand
     [Lit (replicate 250 CHR ''a'' @ ''.'' @ replicate 250 CHR ''b'' @ ''.''),
      Mac \<lparr>m_type = DOMAIN, m_length = None, m_reverse = False, m_delimiter = ''.''\<rparr>]
     (Query_init ''user@example.com'' None None) = Inr ''example.com'' \<and>
   length (utf8_encode ''example.com'') \<le> 253"
proof -
  let ?q = "Query_init ''user@example.com'' None None"
  let ?d = "[Lit (replicate 250 CHR ''a'' @ ''.'' @ replicate 250 CHR ''b'' @ ''.''),
      Mac \<lparr>m_type = DOMAIN, m_length = None, m_reverse = False, m_delimiter = ''.''\<rparr>]"
  let ?p = "[replicate 250 CHR ''a'' @ ''.'' @ replicate 250 CHR ''b'' @ ''.'', ''example.com'']"
  let ?full = "replicate 250 CHR ''a'' @ ''.'' @ replicate 250 CHR ''b'' @ ''.example.com''"
  let ?rest = "replicate 250 CHR ''b'' @ ''.example.com''"
  have pieces: "list_all2 (fragment_text ?q) ?d ?p"
    by code_simp
  have full: "concat ?p = ?full"
    by simp
  have len0: "length ?full = 513"
    by simp
  have dot0: "CHR ''.'' \<in> set ?full"
    by simp
  have strip0: "strip_label ?full = ?rest"
    by (simp add: strip_label_def dropWhile_append)
  have len1: "length ?rest = 262"
    by simp
  have dot1: "CHR ''.'' \<in> set ?rest"
    by simp
  have strip1: "strip_label ?rest = ''example.com''"
    by (simp add: strip_label_def dropWhile_append)
  have two: "(strip_label ^^ 2) (concat ?p) = ''example.com''"
    unfolding full by (simp only: numeral_2_eq_2 funpow.simps o_apply id_apply strip0 strip1)
  have rounds: "\<forall>j<2. 253 < length ((strip_label ^^ j) (concat ?p)) \<and>
      CHR ''.'' \<in> set ((strip_label ^^ j) (concat ?p))"
  proof (intro allI impI)
    fix j :: nat
    assume "j < 2"
    then consider "j = 0" | "j = 1"
      by linarith
    then show "253 < length ((strip_label ^^ j) (concat ?p)) \<and>
        CHR ''.'' \<in> set ((strip_label ^^ j) (concat ?p))"
    proof cases
      case 1
      with len0 dot0 show ?thesis
        unfolding full by simp
    next
      case 2
      with len1 dot1 strip0 show ?thesis
        unfolding full by simp
    qed
  qed
  have short: "length ((strip_label ^^ 2) (concat ?p)) \<le> 253"
    unfolding two by simp
  from pieces rounds short two
  have "\<exists>pieces k. list_all2 (fragment_text ?q) ?d pieces \<and>
      (\<forall>j<k. 253 < length ((strip_label ^^ j) (concat pieces)) \<and>
               CHR ''.'' \<in> set ((strip_label ^^ j) (concat pieces))) \<and>
      length ((strip_label ^^ k) (concat pieces)) \<le> 253 \<and>
      ''example.com'' = (strip_label ^^ k) (concat pieces)"
    by (intro exI [of _ ?p] exI [of _ 2]) (simp only: simp_thms)
  with Domain_expand_capped [of ?d ?q "''example.com''"]
  have run: "Domain_expand ?d ?q = Inr ''example.com''"
    by (rule iffD2 [OF conjunct1])
  have ascii: "\<forall>c\<in>set ''example.com''. of_char c < (128::int)"
    by simp
  from Domain_expand_capped [of ?d ?q "''example.com''"] run ascii
  have octets: "length (utf8_encode ''example.com'') \<le> 253"
    by (simp only: simp_thms)
  from pieces len0 strip0 len1 strip1 run octets show ?thesis
    by (intro conjI)
qed

text \<open>
  C2 as stated fails for a text with characters outside ASCII: 200 letters \<open>e\<close> with an
  acute accent (the code point \<open>0xE9\<close>, two octets) followed by \<open>.com\<close> are 204
  characters and 404 octets, and \<open>expand\<close> returns them as they are.
\<close>

theorem Domain_expand_octets_counterexample:
  "Domain_expand [Lit (replicate 200 (CHR 0xE9) @ ''.com'')]
     (Query_init ''user@example.com'' None None) =
     Inr (replicate 200 (CHR 0xE9) @ ''.com'') \<and>
   length (replicate 200 (CHR 0xE9) @ ''.com'') = 204 \<and>
   length (utf8_encode (replicate 200 (CHR 0xE9) @ ''.com'')) = 404"
  by code_simp

section \<open>Rendering a Domain\<close>

lemma double_percent_Cons:
  "str_replace ''%'' ''%%'' (c # cs) =
     (if c = CHR ''%'' then ''%%'' @ str_replace ''%'' ''%%'' cs
      else c # str_replace ''%'' ''%%'' cs)"
  by auto

lemma space_escape_Cons:
  "str_replace '' '' ''%_'' (c # cs) =
     (if c = CHR '' '' then ''%_'' @ str_replace '' '' ''%_'' cs
      else c # str_replace '' '' ''%_'' cs)"
  by auto

lemma url_space_Cons:
  "str_replace ''%%20'' ''%-'' (c # cs) =
     (if take 4 (c # cs) = ''%%20'' then ''%-'' @ str_replace ''%%20'' ''%-'' (drop 4 (c # cs))
      else c # str_replace ''%%20'' ''%-'' cs)"
  by (simp add: eval_nat_numeral)

lemma double_percent_take2:
  "take 2 (str_replace ''%'' ''%%'' cs) = ''20'' \<longleftrightarrow> take 2 cs = ''20''"
proof (cases cs)
  case Nil
  then show ?thesis by simp
next
  case (Cons a as)
  then show ?thesis
    by (cases as) (auto simp: double_percent_Cons simp del: str_replace.simps(2))
qed

lemma double_percent_take3:
  "take 3 (str_replace ''%'' ''%%'' cs) \<noteq> ''%20''"
proof (cases cs)
  case Nil
  then show ?thesis by simp
next
  case (Cons a as)
  then show ?thesis
    by (cases as) (auto simp: double_percent_Cons simp del: str_replace.simps(2))
qed

lemma take2_20: "take 2 cs = ''20'' \<longleftrightarrow> (\<exists>cs'. cs = ''20'' @ cs')"
proof (cases cs)
  case Nil
  then show ?thesis by simp
next
  case (Cons a as)
  then show ?thesis
    by (cases as) auto
qed

text \<open>The three replacements of the source, one after the other, are the one pass.\<close>

lemma escape_literal_pass: "escape_literal i = escape_pass i"
  unfolding escape_literal_def
proof (induction i rule: escape_pass.induct)
  case 1
  show ?case by simp
next
  case (2 c cs)
  show ?case
  proof (cases "c = CHR ''%''")
    case percent: True
    show ?thesis
    proof (cases "take 2 cs = ''20''")
      case True
      then obtain cs' where cs: "cs = ''20'' @ cs'"
        using take2_20 by blast
      have "str_replace ''%'' ''%%'' (c # cs) = ''%%20'' @ str_replace ''%'' ''%%'' cs'"
        using percent cs by (simp add: double_percent_Cons del: str_replace.simps(2))
      then have "str_replace ''%%20'' ''%-'' (str_replace ''%'' ''%%'' (c # cs)) =
          ''%-'' @ str_replace ''%%20'' ''%-'' (str_replace ''%'' ''%%'' cs')"
        by (simp add: url_space_Cons del: str_replace.simps(2))
      moreover have "str_replace '' '' ''%_''
          (str_replace ''%%20'' ''%-'' (str_replace ''%'' ''%%'' cs')) = escape_pass cs'"
        using "2.IH"(1) [OF percent True] cs by simp
      ultimately show ?thesis
        using percent True cs by (simp add: space_escape_Cons del: str_replace.simps(2))
    next
      case False
      have first: "take 4 (CHR ''%'' # CHR ''%'' # str_replace ''%'' ''%%'' cs) \<noteq> ''%%20''"
        using False double_percent_take2 [of cs] by simp
      have second: "take 4 (CHR ''%'' # str_replace ''%'' ''%%'' cs) \<noteq> ''%%20''"
        using double_percent_take3 [of cs] by simp
      have "str_replace ''%%20'' ''%-'' (str_replace ''%'' ''%%'' (c # cs)) =
          ''%%'' @ str_replace ''%%20'' ''%-'' (str_replace ''%'' ''%%'' cs)"
        using percent first second
        by (simp add: double_percent_Cons url_space_Cons del: str_replace.simps(2))
      then show ?thesis
        using percent False "2.IH"(2) [OF percent False]
        by (simp add: space_escape_Cons del: str_replace.simps(2))
    qed
  next
    case other: False
    have "take 4 (c # str_replace ''%'' ''%%'' cs) \<noteq> ''%%20''"
      using other by auto
    then have step: "str_replace ''%%20'' ''%-'' (str_replace ''%'' ''%%'' (c # cs)) =
        c # str_replace ''%%20'' ''%-'' (str_replace ''%'' ''%%'' cs)"
      using other by (simp add: double_percent_Cons url_space_Cons del: str_replace.simps(2))
    show ?thesis
    proof (cases "c = CHR '' ''")
      case True
      with other step "2.IH"(3) [OF other True] show ?thesis
        by (simp add: space_escape_Cons del: str_replace.simps(2))
    next
      case False
      with other step "2.IH"(4) [OF other False] show ?thesis
        by (simp add: space_escape_Cons del: str_replace.simps(2))
    qed
  qed
qed

lemma Domain_str_loop_concat:
  "Domain_str_loop d result = result @ concat (map fragment_render d)"
proof (induction d arbitrary: result)
  case Nil
  show ?case by simp
next
  case (Cons f d)
  then show ?case
    by (cases f) (simp_all add: fragment_render_def escape_literal_pass)
qed

text \<open>
  C6, as amended. The literal render of a domain-spec is the concatenation of its
  fragments' renderings, in order. A literal text fragment is rewritten in one pass from
  the left: every \<open>%20\<close> becomes \<open>%-\<close>, every other percent sign becomes \<open>%%\<close>, every
  space becomes \<open>%_\<close>, and every other character stays as it is. A macro fragment is
  rendered in its \<open>%{...}\<close> form, not expanded.
\<close>

theorem Domain_str_escapes:
  "Domain_str d = concat (map fragment_render d)"
  by (simp add: Domain_str_def Domain_str_loop_concat)

text \<open>
  C6 as stated fails for the literal fragment \<open>%20\<close>: doubling the percent sign and
  leaving the other characters alone gives \<open>%%20\<close>, the code gives \<open>%-\<close>.
\<close>

theorem Domain_str_url_space_counterexample:
  "Domain_str [Lit ''%20''] = ''%-'' \<and> concat (map escape_char ''%20'') = ''%%20''"
  by code_simp

text \<open>
  Where no percent sign of a fragment is followed by \<open>20\<close>, the one pass is the
  character by character escape of the specification.
\<close>

lemma escape_pass_chars:
  "\<forall>cs'. \<not> (\<exists>pre. i = pre @ ''%20'' @ cs') \<Longrightarrow> escape_pass i = concat (map escape_char i)"
proof (induction i rule: escape_pass.induct)
  case 1
  show ?case by simp
next
  case (2 c cs)
  have tail: "\<forall>cs'. \<not> (\<exists>pre. cs = pre @ ''%20'' @ cs')"
  proof (intro allI notI)
    fix cs'
    assume "\<exists>pre. cs = pre @ ''%20'' @ cs'"
    then obtain pre where "cs = pre @ ''%20'' @ cs'"
      by blast
    then have "c # cs = (c # pre) @ ''%20'' @ cs'"
      by simp
    with "2.prems" show False
      by blast
  qed
  have no20: "\<not> (c = CHR ''%'' \<and> take 2 cs = ''20'')"
  proof
    assume h: "c = CHR ''%'' \<and> take 2 cs = ''20''"
    then obtain cs' where "cs = ''20'' @ cs'"
      using take2_20 by blast
    with h have "c # cs = [] @ ''%20'' @ cs'"
      by simp
    with "2.prems" show False
      by blast
  qed
  show ?case
  proof (cases "c = CHR ''%''")
    case True
    with no20 have "take 2 cs \<noteq> ''20''"
      by simp
    with True "2.IH"(2) [OF True this tail] show ?thesis
      by (simp add: escape_char_def)
  next
    case False
    with "2.IH"(3,4) [OF False] tail show ?thesis
      by (cases "c = CHR '' ''") (simp_all add: escape_char_def)
  qed
qed

section \<open>Rendering mechanisms and the record\<close>

lemma join_after_separator:
  "xs \<noteq> [] \<Longrightarrow> sep @ str_join sep xs = concat (map (\<lambda>x. sep @ x) xs)"
  by (induction sep xs rule: str_join.induct) simp_all

text \<open>
  C4. The render of a record is \<open>v=spf1\<close> followed by a single space and the render of
  the term, for each term in list order; for the empty list it is exactly \<open>v=spf1\<close>.
  Said with the join: if the list is not empty, \<open>v=spf1\<close>, one space, and the renders
  joined by single spaces. The record of the specification's example renders as
  \<open>v=spf1 include:_spf.example.com -all\<close>.
\<close>

theorem SPF_str_render:
  "SPF_str ntop6 terms = ''v=spf1'' @ concat (map (\<lambda>t. '' '' @ Term_str ntop6 t) terms) \<and>
   SPF_str ntop6 terms =
     (if terms = [] then ''v=spf1''
      else ''v=spf1 '' @ str_join '' '' (map (Term_str ntop6) terms)) \<and>
   SPF_str ntop6 [] = ''v=spf1'' \<and>
   SPF_str ntop6
     [TDirective (Directive (Include [Lit ''_spf.example.com'']) PASS),
      TDirective (Directive All FAIL)] = ''v=spf1 include:_spf.example.com -all''"
proof (intro conjI)
  show "SPF_str ntop6 terms = ''v=spf1'' @ concat (map (\<lambda>t. '' '' @ Term_str ntop6 t) terms)"
  proof (cases "terms = []")
    case True
    then show ?thesis
      by (simp add: SPF_str_def SPF_version_def)
  next
    case False
    then have "'' '' @ str_join '' '' (map (Term_str ntop6) terms) =
        concat (map (\<lambda>x. '' '' @ x) (map (Term_str ntop6) terms))"
      by (intro join_after_separator) simp
    with False show ?thesis
      by (simp add: SPF_str_def SPF_version_def comp_def)
  qed
  show "SPF_str ntop6 terms =
     (if terms = [] then ''v=spf1''
      else ''v=spf1 '' @ str_join '' '' (map (Term_str ntop6) terms))"
    by (simp add: SPF_str_def SPF_version_def)
  show "SPF_str ntop6 [] = ''v=spf1''"
    by (simp add: SPF_str_def SPF_version_def)
  show "SPF_str ntop6
     [TDirective (Directive (Include [Lit ''_spf.example.com'']) PASS),
      TDirective (Directive All FAIL)] = ''v=spf1 include:_spf.example.com -all''"
    by code_simp
qed

text \<open>
  C5. The render of an \<open>A\<close> or \<open>MX\<close> mechanism is the token \<open>a\<close> or \<open>mx\<close>, then a
  colon and the domain if there is one, then a slash and the IPv4 prefix length if that is
  not 32, then two slashes and the IPv6 prefix length if that is not 128, in this order.
  \<open>A(ipv4_prefix_length=24, ipv6_prefix_length=64)\<close> renders as \<open>a/24//64\<close> and \<open>A()\<close>
  as \<open>a\<close>.
\<close>

theorem Cidr_render:
  "Mechanism_str ntop6 (A c) =
     ''a'' @ (case c_domain c of None \<Rightarrow> [] | Some d \<Rightarrow> '':'' @ Domain_str d)
       @ (if ipv4_prefix_length c \<noteq> 32 then ''/'' @ fmt_d (ipv4_prefix_length c) else [])
       @ (if ipv6_prefix_length c \<noteq> 128 then ''//'' @ fmt_d (ipv6_prefix_length c) else []) \<and>
   Mechanism_str ntop6 (MX c) =
     ''mx'' @ (case c_domain c of None \<Rightarrow> [] | Some d \<Rightarrow> '':'' @ Domain_str d)
       @ (if ipv4_prefix_length c \<noteq> 32 then ''/'' @ fmt_d (ipv4_prefix_length c) else [])
       @ (if ipv6_prefix_length c \<noteq> 128 then ''//'' @ fmt_d (ipv6_prefix_length c) else []) \<and>
   Mechanism_str ntop6 (A (Cidr_init None (Some 24) (Some 64))) = ''a/24//64'' \<and>
   Mechanism_str ntop6 (A (Cidr_init None None None)) = ''a'' \<and>
   Mechanism_str ntop6 (MX (Cidr_init (Some [Lit ''example.com'']) (Some 24) None)) =
     ''mx:example.com/24''"
proof (intro conjI)
  show "Mechanism_str ntop6 (A c) =
     ''a'' @ (case c_domain c of None \<Rightarrow> [] | Some d \<Rightarrow> '':'' @ Domain_str d)
       @ (if ipv4_prefix_length c \<noteq> 32 then ''/'' @ fmt_d (ipv4_prefix_length c) else [])
       @ (if ipv6_prefix_length c \<noteq> 128 then ''//'' @ fmt_d (ipv6_prefix_length c) else [])"
    by (simp add: Cidr_str_def Let_def split: option.splits)
  show "Mechanism_str ntop6 (MX c) =
     ''mx'' @ (case c_domain c of None \<Rightarrow> [] | Some d \<Rightarrow> '':'' @ Domain_str d)
       @ (if ipv4_prefix_length c \<noteq> 32 then ''/'' @ fmt_d (ipv4_prefix_length c) else [])
       @ (if ipv6_prefix_length c \<noteq> 128 then ''//'' @ fmt_d (ipv6_prefix_length c) else [])"
    by (simp add: Cidr_str_def Let_def split: option.splits)
  show "Mechanism_str ntop6 (A (Cidr_init None (Some 24) (Some 64))) = ''a/24//64''"
    by code_simp
  show "Mechanism_str ntop6 (A (Cidr_init None None None)) = ''a''"
    by code_simp
  show "Mechanism_str ntop6 (MX (Cidr_init (Some [Lit ''example.com'']) (Some 24) None)) =
     ''mx:example.com/24''"
    by code_simp
qed

section \<open>The IPNetwork mechanism\<close>

lemma count_low_zeros_lower: "k \<le> count_low_zeros v k"
proof (induction v k rule: count_low_zeros.induct)
  case (1 i_val numbits)
  show ?case
  proof (cases "i_val > 0 \<and> i_val AND 1 \<noteq> 1")
    case True
    with "1.IH" have "numbits + 1 \<le> count_low_zeros (drop_bit 1 i_val) (numbits + 1)"
      by simp
    with True show ?thesis
      by (subst count_low_zeros.simps) simp
  next
    case False
    then show ?thesis
      by (subst count_low_zeros.simps) auto
  qed
qed

lemma count_low_zeros_upper:
  "0 < v \<Longrightarrow> v < 2 ^ n \<Longrightarrow> count_low_zeros v k < k + int n"
proof (induction v k arbitrary: n rule: count_low_zeros.induct)
  case (1 i_val numbits)
  from "1.prems" have n: "0 < n"
    by (cases n) simp_all
  show ?case
  proof (cases "i_val AND 1 = 1")
    case True
    with "1.prems" n show ?thesis
      by (subst count_low_zeros.simps) simp
  next
    case False
    then have even: "even i_val"
      by (simp add: and_one_eq mod_2_eq_odd)
    with "1.prems" have half: "0 < drop_bit 1 i_val"
      by (auto simp: drop_bit_eq_div elim!: evenE)
    obtain n' where n': "n = Suc n'"
      using n by (cases n) simp_all
    with "1.prems" have "drop_bit 1 i_val < 2 ^ n'"
      by (simp add: drop_bit_eq_div)
    from "1.IH" [OF "1.prems"(1) False half this]
    have "count_low_zeros (drop_bit 1 i_val) (numbits + 1) < numbits + 1 + int n'" .
    with False "1.prems" n' show ?thesis
      by (subst count_low_zeros.simps) simp
  qed
qed

lemma ip_value_range: "0 \<le> ip_value a \<and> ip_value a < 2 ^ width a"
proof (cases a)
  case (IPv4 w)
  have "uint w < 2 ^ LENGTH(32)"
    by (rule uint_lt2p)
  with IPv4 show ?thesis by simp
next
  case (IPv6 w)
  have "uint w < 2 ^ LENGTH(128)"
    by (rule uint_lt2p)
  with IPv6 show ?thesis by simp
qed

text \<open>The sanity test of \<open>netmask_bits\<close> after its loop holds for every address.\<close>

lemma mask_length_in_range:
  assumes "ip_value a \<noteq> 0"
  shows "0 \<le> int (width a) - count_low_zeros (ip_value a) 0 \<and>
         int (width a) - count_low_zeros (ip_value a) 0 \<le> int (width a)"
proof -
  from assms ip_value_range [of a] have pos: "0 < ip_value a" and below: "ip_value a < 2 ^ width a"
    by simp_all
  from count_low_zeros_upper [OF pos below, of 0] count_low_zeros_lower [of 0 "ip_value a"]
  show ?thesis
    by simp
qed

subsection \<open>Normalisation to the CIDR base\<close>

lemma clear_host_bits:
  fixes v :: int
  assumes "0 \<le> v" "v < 2 ^ w" "h \<le> w"
  shows "v AND ((2 ^ w - 1) XOR (2 ^ h - 1)) = push_bit h (drop_bit h v)"
proof (rule bit_eqI)
  fix i
  have high: "i < w" if "bit v i"
  proof -
    from assms(1,2) have eq: "take_bit w v = v"
      by (simp add: take_bit_int_eq_self)
    from that have "bit (take_bit w v) i"
      by (simp only: eq)
    then show "i < w"
      by (simp only: bit_take_bit_iff)
  qed
  have m: "(2::int) ^ w - 1 = mask w" "(2::int) ^ h - 1 = mask h"
    by (simp_all add: mask_eq_exp_minus_1)
  have "bit (v AND (mask w XOR mask h)) i \<longleftrightarrow> bit v i \<and> ((i < w) \<noteq> (i < h))"
    by (simp add: bit_and_iff bit_xor_iff bit_mask_iff)
  also have "\<dots> \<longleftrightarrow> bit v i \<and> h \<le> i"
    using high assms(3) by auto
  also have "\<dots> \<longleftrightarrow> bit (push_bit h (drop_bit h v)) i"
    by (auto simp: bit_push_bit_iff bit_drop_bit_eq)
  finally show "bit (v AND ((2 ^ w - 1) XOR (2 ^ h - 1))) i = bit (push_bit h (drop_bit h v)) i"
    unfolding m .
qed


text \<open>
  The value of the base address is the value of the given address with its host bits, the
  low \<open>width - prefixlen\<close> bits, cleared; version and prefix length stay.
\<close>

lemma uint_of_small:
  "0 \<le> x \<Longrightarrow> x < 2 ^ LENGTH('a::len) \<Longrightarrow> uint (word_of_int x :: 'a word) = x"
  by (simp add: uint_word_of_int_eq take_bit_int_eq_self)

lemma cidr_value:
  assumes "net_prefixlen n \<le> width (net_ip n)"
  shows "ip_value (net_ip (cidr n)) =
     ip_value (net_ip n) - ip_value (net_ip n) mod 2 ^ (width (net_ip n) - net_prefixlen n)"
proof -
  define v where "v = ip_value (net_ip n)"
  define w where "w = width (net_ip n)"
  define h where "h = w - net_prefixlen n"
  have range: "0 \<le> v" "v < 2 ^ w"
    using ip_value_range [of "net_ip n"] by (simp_all add: v_def w_def)
  have "h \<le> w"
    by (simp add: h_def)
  from clear_host_bits [OF range this]
  have masked: "v AND ((2 ^ w - 1) XOR (2 ^ h - 1)) = v - v mod 2 ^ h"
    by (simp add: push_bit_eq_mult drop_bit_eq_div minus_mod_eq_div_mult)
  have low: "0 \<le> v mod 2 ^ h" and high: "v mod 2 ^ h \<le> v"
    using range(1) by (simp_all add: zmod_le_nonneg_dividend)
  have bounds: "0 \<le> v - v mod 2 ^ h" "v - v mod 2 ^ h < 2 ^ w"
    using range low high by linarith+
  show ?thesis
  proof (cases "net_ip n")
    case (IPv4 x)
    with bounds have "uint (word_of_int (v - v mod 2 ^ h) :: 32 word) = v - v mod 2 ^ h"
      by (intro uint_of_small) (simp_all add: w_def)
    with IPv4 masked show ?thesis
      by (simp add: cidr_def max_int_def hostmask_int_def v_def w_def h_def)
  next
    case (IPv6 x)
    with bounds have "uint (word_of_int (v - v mod 2 ^ h) :: 128 word) = v - v mod 2 ^ h"
      by (intro uint_of_small) (simp_all add: w_def)
    with IPv6 masked show ?thesis
      by (simp add: cidr_def max_int_def hostmask_int_def v_def w_def h_def)
  qed
qed

lemma cidr_keeps: "version (net_ip (cidr n)) = version (net_ip n) \<and>
    width (net_ip (cidr n)) = width (net_ip n) \<and> net_prefixlen (cidr n) = net_prefixlen n"
  by (cases "net_ip n") (simp_all add: cidr_def)

text \<open>
  The render in general, and the case in which the suffix follows the rule of the
  specification: a base address that is not shaped like a netmask.
\<close>

lemma IPNetwork_str_form:
  "IPNetwork_str ntop6 n =
     ''ip'' @ fmt_d (version (net_ip n)) @ '':'' @ IPAddress_str ntop6 (net_ip (cidr n))
       @ (if int (net_prefixlen n) \<noteq> netmask_bits (net_ip (cidr n))
          then ''/'' @ fmt_d (int (net_prefixlen n)) else [])"
  by (simp add: IPNetwork_str_def IPNetwork_prefix_length_def IPNetwork_address_def
      IPNetwork_version_def IPNetwork_network_def cidr_keeps Let_def)

lemma IPNetwork_str_plain_base:
  assumes "\<not> is_netmask (net_ip (cidr n))"
  shows "IPNetwork_str ntop6 n =
     ''ip'' @ fmt_d (version (net_ip n)) @ '':'' @ IPAddress_str ntop6 (net_ip (cidr n))
       @ (if net_prefixlen n \<noteq> width (net_ip n)
          then ''/'' @ fmt_d (int (net_prefixlen n)) else [])"
  using assms by (simp add: IPNetwork_str_form netmask_bits_def cidr_keeps)

text \<open>The two examples of the specification.\<close>

lemma IPNetwork_str_examples:
  "IPNetwork_init (IPv4 167838211) 24 = Inr \<lparr>net_ip = IPv4 167838211, net_prefixlen = 24\<rparr> \<and>
   ipv4_str 167838211 = ''10.1.2.3'' \<and>
   IPNetwork_str ntop6 \<lparr>net_ip = IPv4 167838211, net_prefixlen = 24\<rparr> = ''ip4:10.1.2.0/24'' \<and>
   ipv4_str 3221225985 = ''192.0.2.1'' \<and>
   IPNetwork_str ntop6 \<lparr>net_ip = IPv4 3221225985, net_prefixlen = 32\<rparr> = ''ip4:192.0.2.1''"
  by code_simp

text \<open>
  C3. The suffix is compared with \<open>netmask_bits\<close> of the base address, which is the
  address width only while the base address is not itself shaped like a netmask. The
  network \<open>0.0.0.0/0\<close> is rendered as \<open>ip4:0.0.0.0\<close>, without its prefix length 0, and
  \<open>255.255.255.0/24\<close> as \<open>ip4:255.255.255.0\<close>; \<open>255.255.255.0/32\<close> keeps a suffix
  \<open>/32\<close>.
\<close>

theorem IPNetwork_str_netmask_shaped:
  "IPNetwork_init (IPv4 0) 0 = Inr \<lparr>net_ip = IPv4 0, net_prefixlen = 0\<rparr> \<and>
   IPNetwork_prefix_length \<lparr>net_ip = IPv4 0, net_prefixlen = 0\<rparr> = 0 \<and>
   IPNetwork_str ntop6 \<lparr>net_ip = IPv4 0, net_prefixlen = 0\<rparr> = ''ip4:0.0.0.0'' \<and>
   ipv4_str 4294967040 = ''255.255.255.0'' \<and>
   IPNetwork_str ntop6 \<lparr>net_ip = IPv4 4294967040, net_prefixlen = 24\<rparr> = ''ip4:255.255.255.0'' \<and>
   IPNetwork_str ntop6 \<lparr>net_ip = IPv4 4294967040, net_prefixlen = 32\<rparr> =
     ''ip4:255.255.255.0/32''"
  by code_simp

end
